theory Spec2Isabelle
  imports Main "HOL-Library.Word"
begin

section \<open>Failures\<close>

text \<open>
  Failures of the C++ code are values of the model. A debug assertion that does not hold
  is \<open>AssertionFailure\<close>; a read through a pointer that is not a live object, or an
  array access outside the array, is \<open>InvalidAccess\<close>. The memory fences of the code
  order the accesses of several threads and change no state; the models of the barrier
  set and of the malloc site table are those of one thread running alone, and the model
  of the access lock interleaves the steps of several.
\<close>

datatype error = AssertionFailure | InvalidAccess

section \<open>G1 barrier set (gc/g1/g1BarrierSet.cpp)\<close>

type_synonym CardValue = "8 word"

text \<open>
  A \<open>CardValue*\<close> into the card table's byte map is the index of the card; an \<open>oop\<close>
  is an address, \<open>NULL\<close> being 0.
\<close>

type_synonym card_ptr = nat
type_synonym oop = nat

text \<open>
  The state the barrier code touches: the card table's byte map, the dirty-card queue and
  the SATB mark queue of the current thread, and the active flag of the SATB queue set.
\<close>

record g1_barrier_set =
  byte_map :: "card_ptr \<Rightarrow> CardValue"
  dirty_card_queue :: "card_ptr list"
  satb_mark_queue :: "oop list"
  satb_is_active :: bool

text \<open>
  Modelled from the spec: \<open>G1DirtyCardQueue::enqueue\<close> is not in the sources. The
  dirty-card queue is an ordered sequence of pending card addresses, always active;
  enqueueing appends.
\<close>

definition dirty_card_queue_enqueue :: "card_ptr \<Rightarrow> g1_barrier_set \<Rightarrow> g1_barrier_set" where
  "dirty_card_queue_enqueue byte s = s\<lparr>dirty_card_queue := dirty_card_queue s @ [byte]\<rparr>"

text \<open>
  Modelled from the spec: \<open>SATBMarkQueue::enqueue\<close> is not in the sources. The
  reference is appended to the current thread's SATB queue, but only if the marking-phase
  flag is active.
\<close>

definition satb_mark_queue_enqueue :: "oop \<Rightarrow> g1_barrier_set \<Rightarrow> g1_barrier_set" where
  "satb_mark_queue_enqueue pre_val s =
     (if satb_is_active s then s\<lparr>satb_mark_queue := satb_mark_queue s @ [pre_val]\<rparr> else s)"

text \<open>
  \<open>G1BarrierSet::enqueue\<close>. Its debug assertion \<open>oopDesc::is_oop(pre_val, true)\<close> reads
  the object header and the heap bounds, which are outside this model; it is left out.
\<close>

definition enqueue :: "oop \<Rightarrow> g1_barrier_set \<Rightarrow> g1_barrier_set" where
  "enqueue pre_val s = satb_mark_queue_enqueue pre_val s"

text \<open>
  \<open>G1BarrierSet::write_ref_array_pre_work<T>\<close>. The destination is the address \<open>dst\<close>
  in a memory \<open>mem\<close> of slots of type \<open>'t\<close>; \<open>elem_ptr++\<close> moves to the next slot.
  \<open>CompressedOops::is_null\<close> and \<open>CompressedOops::decode_not_null\<close> are not in the
  sources and are parameters of the template. The loop runs \<open>i\<close> from its current value
  up to \<open>count\<close>.
\<close>

function write_ref_array_pre_loop ::
  "('t \<Rightarrow> bool) \<Rightarrow> ('t \<Rightarrow> oop) \<Rightarrow> (nat \<Rightarrow> 't) \<Rightarrow> nat \<Rightarrow> nat \<Rightarrow> nat \<Rightarrow>
   g1_barrier_set \<Rightarrow> g1_barrier_set" where
  "write_ref_array_pre_loop is_null decode_not_null mem elem_ptr i count s =
     (if i < count then
        (let heap_oop = mem elem_ptr;
             s' = (if \<not> is_null heap_oop then enqueue (decode_not_null heap_oop) s else s)
         in write_ref_array_pre_loop is_null decode_not_null mem (elem_ptr + 1) (i + 1) count s')
      else s)"
  by pat_completeness auto
termination
  by (relation "measure (\<lambda>(is_null, decode_not_null, mem, elem_ptr, i, count, s). count - i)") auto

definition write_ref_array_pre_work ::
  "('t \<Rightarrow> bool) \<Rightarrow> ('t \<Rightarrow> oop) \<Rightarrow> (nat \<Rightarrow> 't) \<Rightarrow> nat \<Rightarrow> nat \<Rightarrow>
   g1_barrier_set \<Rightarrow> g1_barrier_set" where
  "write_ref_array_pre_work is_null decode_not_null mem dst count s =
     (if \<not> satb_is_active s then s
      else write_ref_array_pre_loop is_null decode_not_null mem dst 0 count s)"

text \<open>
  The two overloads of \<open>G1BarrierSet::write_ref_array_pre\<close>. For \<open>oop*\<close> a slot holds
  the reference itself: it is null when it is \<open>NULL\<close> and decodes to itself. For
  \<open>narrowOop*\<close> a slot holds a 32-bit compressed reference, null when 0; its decoding
  (heap base and shift) is a parameter.
\<close>

type_synonym narrowOop = "32 word"

definition write_ref_array_pre ::
  "(nat \<Rightarrow> oop) \<Rightarrow> nat \<Rightarrow> nat \<Rightarrow> bool \<Rightarrow> g1_barrier_set \<Rightarrow> g1_barrier_set" where
  "write_ref_array_pre mem dst count dest_uninitialized s =
     (if \<not> dest_uninitialized
      then write_ref_array_pre_work (\<lambda>v. v = 0) (\<lambda>v. v) mem dst count s
      else s)"

definition write_ref_array_pre_narrow ::
  "(narrowOop \<Rightarrow> oop) \<Rightarrow> (nat \<Rightarrow> narrowOop) \<Rightarrow> nat \<Rightarrow> nat \<Rightarrow> bool \<Rightarrow>
   g1_barrier_set \<Rightarrow> g1_barrier_set" where
  "write_ref_array_pre_narrow decode_not_null mem dst count dest_uninitialized s =
     (if \<not> dest_uninitialized
      then write_ref_array_pre_work (\<lambda>v. v = 0) decode_not_null mem dst count s
      else s)"

text \<open>
  \<open>G1BarrierSet::write_ref_field_post_slow\<close>. The card values
  \<open>G1CardTable::g1_young_card_val()\<close> and \<open>G1CardTable::dirty_card_val()\<close> are declared
  in headers that are not in the sources; they are the parameters \<open>young\<close> and \<open>dirty\<close>.
  \<open>OrderAccess::storeload()\<close> orders memory accesses between threads and changes no
  state.
\<close>

definition write_ref_field_post_slow ::
  "CardValue \<Rightarrow> CardValue \<Rightarrow> card_ptr \<Rightarrow> g1_barrier_set \<Rightarrow> error + g1_barrier_set" where
  "write_ref_field_post_slow young dirty byte s =
     (if byte_map s byte = young then Inl AssertionFailure
      else if byte_map s byte \<noteq> dirty
      then Inr (dirty_card_queue_enqueue byte (s\<lparr>byte_map := (byte_map s)(byte := dirty)\<rparr>))
      else Inr s)"

text \<open>
  Modelled from the spec: \<open>MemRegion\<close> and \<open>CardTable::byte_for\<close> are not in the
  sources. A region is a start address and a size in heap words, and addresses count heap
  words as \<open>HeapWord*\<close> arithmetic does; it is empty when its size is 0, and its last
  word is the one before its end. A card is a fixed-size slice of the address space,
  \<open>card_size\<close> words, tracked by one byte of the card table; \<open>byte_for\<close> gives the
  card of an address.
\<close>

record MemRegion =
  start :: nat
  word_size :: nat

definition is_empty :: "MemRegion \<Rightarrow> bool" where
  "is_empty mr = (word_size mr = 0)"

definition last_word :: "MemRegion \<Rightarrow> nat" where
  "last_word mr = start mr + word_size mr - 1"

definition byte_for :: "nat \<Rightarrow> nat \<Rightarrow> card_ptr" where
  "byte_for card_size p = p div card_size"

text \<open>\<open>G1BarrierSet::invalidate\<close>: the loop that skips the initial young cards.\<close>

function skip_young :: "CardValue \<Rightarrow> g1_barrier_set \<Rightarrow> card_ptr \<Rightarrow> card_ptr \<Rightarrow> card_ptr" where
  "skip_young young s byte last_byte =
     (if byte \<le> last_byte \<and> byte_map s byte = young
      then skip_young young s (byte + 1) last_byte
      else byte)"
  by pat_completeness auto
termination
  by (relation "measure (\<lambda>(young, s, byte, last_byte). last_byte + 1 - byte)") auto

text \<open>\<open>G1BarrierSet::invalidate\<close>: the loop that dirties and enqueues.\<close>

function invalidate_loop ::
  "CardValue \<Rightarrow> CardValue \<Rightarrow> card_ptr \<Rightarrow> card_ptr \<Rightarrow> g1_barrier_set \<Rightarrow> g1_barrier_set" where
  "invalidate_loop young dirty byte last_byte s =
     (if byte \<le> last_byte then
        (let bv = byte_map s byte;
             s' = (if bv \<noteq> young \<and> bv \<noteq> dirty
                   then dirty_card_queue_enqueue byte (s\<lparr>byte_map := (byte_map s)(byte := dirty)\<rparr>)
                   else s)
         in invalidate_loop young dirty (byte + 1) last_byte s')
      else s)"
  by pat_completeness auto
termination
  by (relation "measure (\<lambda>(young, dirty, byte, last_byte, s). last_byte + 1 - byte)") auto

definition invalidate ::
  "nat \<Rightarrow> CardValue \<Rightarrow> CardValue \<Rightarrow> MemRegion \<Rightarrow> g1_barrier_set \<Rightarrow> g1_barrier_set" where
  "invalidate card_size young dirty mr s =
     (if is_empty mr then s
      else
        (let byte = byte_for card_size (start mr);
             last_byte = byte_for card_size (last_word mr);
             byte' = skip_young young s byte last_byte
         in if byte' \<le> last_byte then invalidate_loop young dirty byte' last_byte s else s))"

text \<open>
  A card covers a region when some heap word of the region lies in the card.
\<close>

definition card_covers :: "nat \<Rightarrow> MemRegion \<Rightarrow> card_ptr \<Rightarrow> bool" where
  "card_covers card_size mr c =
     (\<exists>p \<in> {start mr ..< start mr + word_size mr}. byte_for card_size p = c)"

text \<open>
  The invariant of the dirty-card queue between two drains: no card is in the queue twice,
  and every card in the queue is dirty.
\<close>

definition enqueued_once :: "CardValue \<Rightarrow> g1_barrier_set \<Rightarrow> bool" where
  "enqueued_once dirty s =
     (distinct (dirty_card_queue s) \<and> list_all (\<lambda>c. byte_map s c = dirty) (dirty_card_queue s))"

section \<open>Malloc site table (services/mallocSiteTable.cpp)\<close>

text \<open>
  A pointer to a hashtable entry is an address; \<open>NULL\<close> is \<open>None\<close>. A
  \<open>MallocSite*\<close> obtained from \<open>data()\<close> or \<open>peek()\<close> points into its entry and is
  identified with the address of the entry. A native call stack is the list of its
  frames' return addresses; its \<open>hash()\<close> is a parameter \<open>hash\<close> of the operations,
  and \<open>equals\<close> is equality of the stacks.
\<close>

type_synonym addr = nat
type_synonym NativeCallStack = "nat list"

text \<open>
  Modelled from the spec: the enumeration \<open>MEMFLAGS\<close> is declared in a header that is not
  in the sources. The code names \<open>mtNMT\<close> and \<open>mtNone\<close>; every other memory category
  is \<open>mtOther n\<close>.
\<close>

datatype MEMFLAGS = mtNMT | mtNone | mtOther nat

record MallocSite =
  call_stack :: NativeCallStack
  flags :: MEMFLAGS

record MallocSiteHashtableEntry =
  data :: MallocSite
  next_entry :: "addr option"

text \<open>
  The static state of \<open>MallocSiteTable\<close> and the memory it reaches: the bucket array
  \<open>_table\<close>, the entries that are live objects (the C heap and the static bootstrap
  entry), the two bootstrap pointers, and the addresses the allocator hands out next.
\<close>

record site_table =
  table :: "addr option list"
  heap :: "addr \<rightharpoonup> MallocSiteHashtableEntry"
  hash_entry_allocation_stack :: "NativeCallStack option"
  hash_entry_allocation_site :: "addr option"
  free_store :: "addr list"

definition table_size :: "site_table \<Rightarrow> nat" where
  "table_size s = length (table s)"

text \<open>
  Modelled from the spec: \<open>hash_to_index\<close> is not in the sources. The index of a key is
  its hash modulo the table size.
\<close>

definition hash_to_index :: "site_table \<Rightarrow> nat \<Rightarrow> nat" where
  "hash_to_index s h = h mod table_size s"

text \<open>
  Modelled from the spec: \<open>AllocateHeap\<close> is not in the sources. The allocator supplies
  raw memory for a new entry, or null (\<open>AllocFailStrategy::RETURN_NULL\<close>) when it has
  none left.
\<close>

definition AllocateHeap :: "site_table \<Rightarrow> addr option \<times> site_table" where
  "AllocateHeap s =
     (case free_store s of
        [] \<Rightarrow> (None, s)
      | p # ps \<Rightarrow> (Some p, s\<lparr>free_store := ps\<rparr>))"

text \<open>
  \<open>MallocSiteTable::new_entry\<close>. It reads through \<open>hash_entry_allocation_stack()\<close>,
  which is null before \<open>initialize\<close> and after \<open>reset\<close>. The entry is constructed
  in the allocated memory with a null \<open>_next\<close>; null is returned when the allocation
  fails.
\<close>

definition new_entry ::
  "NativeCallStack \<Rightarrow> MEMFLAGS \<Rightarrow> site_table \<Rightarrow> error + (addr option \<times> site_table)" where
  "new_entry key mflags s =
     (case hash_entry_allocation_stack s of
        None \<Rightarrow> Inl InvalidAccess
      | Some stack \<Rightarrow>
          (case AllocateHeap s of
             (None, s') \<Rightarrow> Inr (None, s')
           | (Some p, s') \<Rightarrow>
               Inr (Some p, s'\<lparr>heap := (heap s')(p \<mapsto>
                 \<lparr>data = \<lparr>call_stack = key, flags = mflags\<rparr>, next_entry = None\<rparr>)\<rparr>)))"

text \<open>\<open>delete entry\<close>: the object is live no longer.\<close>

definition delete_entry :: "addr \<Rightarrow> site_table \<Rightarrow> error + site_table" where
  "delete_entry p s =
     (case heap s p of
        None \<Rightarrow> Inl InvalidAccess
      | Some e \<Rightarrow> Inr (s\<lparr>heap := (heap s)(p := None)\<rparr>))"

text \<open>
  \<open>Atomic::replace_if_null(entry, &_table[index])\<close>: the entry is stored if the bucket
  head is null, and the result tells whether it was.
\<close>

definition replace_if_null :: "addr \<Rightarrow> nat \<Rightarrow> site_table \<Rightarrow> bool \<times> site_table" where
  "replace_if_null entry index s =
     (if table s ! index = None
      then (True, s\<lparr>table := (table s)[index := Some entry]\<rparr>)
      else (False, s))"

text \<open>
  \<open>MallocSiteHashtableEntry::atomic_insert\<close>: \<open>Atomic::replace_if_null(entry, &_next)\<close>
  on the entry \<open>this\<close>.
\<close>

definition atomic_insert :: "addr \<Rightarrow> addr \<Rightarrow> site_table \<Rightarrow> error + (bool \<times> site_table)" where
  "atomic_insert this entry s =
     (case heap s this of
        None \<Rightarrow> Inl InvalidAccess
      | Some e \<Rightarrow>
          (if next_entry e = None
           then Inr (True, s\<lparr>heap := (heap s)(this \<mapsto> e\<lparr>next_entry := Some entry\<rparr>)\<rparr>)
           else Inr (False, s)))"

text \<open>
  \<open>MallocSiteTable::lookup_or_add\<close>, lines 126 to 135: the first entry of an empty
  bucket. The result \<open>Some r\<close> says that the function returns \<open>r\<close>; \<open>None\<close> says that
  it goes on to the walk of the chain.
\<close>

definition first_entry ::
  "NativeCallStack \<Rightarrow> MEMFLAGS \<Rightarrow> nat \<Rightarrow> site_table \<Rightarrow>
   error + (addr option option \<times> site_table)" where
  "first_entry key mflags index s =
     (case new_entry key mflags s of
        Inl err \<Rightarrow> Inl err
      | Inr (None, s1) \<Rightarrow> Inr (Some None, s1)
      | Inr (Some entry, s1) \<Rightarrow>
          (case replace_if_null entry index s1 of
             (True, s2) \<Rightarrow> Inr (Some (Some entry), s2)
           | (False, s2) \<Rightarrow>
               (case delete_entry entry s2 of
                  Inl err \<Rightarrow> Inl err
                | Inr s3 \<Rightarrow> Inr (None, s3))))"

text \<open>
  Lines 146 to 154: a new entry is appended to the tail \<open>head\<close> of the chain. The result
  \<open>Some (site, pos_idx)\<close> says that the function returns \<open>site\<close> with that position;
  \<open>None\<close> says that the insertion was contended and the walk goes on.
\<close>

definition try_append ::
  "NativeCallStack \<Rightarrow> MEMFLAGS \<Rightarrow> addr \<Rightarrow> nat \<Rightarrow> site_table \<Rightarrow>
   error + ((addr option \<times> nat) option \<times> site_table)" where
  "try_append key mflags head pos_idx s =
     (case new_entry key mflags s of
        Inl err \<Rightarrow> Inl err
      | Inr (None, s1) \<Rightarrow> Inr (Some (None, pos_idx), s1)
      | Inr (Some entry, s1) \<Rightarrow>
          (case atomic_insert head entry s1 of
             Inl err \<Rightarrow> Inl err
           | Inr (True, s2) \<Rightarrow> Inr (Some (Some entry, pos_idx + 1), s2)
           | Inr (False, s2) \<Rightarrow>
               (case delete_entry entry s2 of
                  Inl err \<Rightarrow> Inl err
                | Inr s3 \<Rightarrow> Inr (None, s3))))"

text \<open>
  Lines 139 to 159: the walk of the chain. \<open>MAX_BUCKET_LENGTH\<close> is defined in a header
  that is not in the sources and is a parameter. The result is the site returned and the
  value left in \<open>*pos_idx\<close>.
\<close>

function lookup_loop ::
  "nat \<Rightarrow> NativeCallStack \<Rightarrow> MEMFLAGS \<Rightarrow> addr option \<Rightarrow> nat \<Rightarrow> site_table \<Rightarrow>
   error + ((addr option \<times> nat) \<times> site_table)" where
  "lookup_loop MAX_BUCKET_LENGTH key mflags head pos_idx s =
     (case head of
        None \<Rightarrow> Inr ((None, pos_idx), s)
      | Some h \<Rightarrow>
          if pos_idx \<le> MAX_BUCKET_LENGTH then
            (case heap s h of
               None \<Rightarrow> Inl InvalidAccess
             | Some e \<Rightarrow>
                 if flags (data e) = mflags \<and> call_stack (data e) = key
                 then Inr ((Some h, pos_idx), s)
                 else
                   (case (if next_entry e = None \<and> pos_idx < MAX_BUCKET_LENGTH
                          then try_append key mflags h pos_idx s
                          else Inr (None, s)) of
                      Inl err \<Rightarrow> Inl err
                    | Inr (Some r, s') \<Rightarrow> Inr (r, s')
                    | Inr (None, s') \<Rightarrow>
                        (case heap s' h of
                           None \<Rightarrow> Inl InvalidAccess
                         | Some e' \<Rightarrow>
                             lookup_loop MAX_BUCKET_LENGTH key mflags (next_entry e')
                               (pos_idx + 1) s')))
          else Inr ((None, pos_idx), s))"
  by pat_completeness auto
termination
  by (relation "measure (\<lambda>(MAX_BUCKET_LENGTH, key, mflags, head, pos_idx, s).
        MAX_BUCKET_LENGTH + 1 - pos_idx)") auto

text \<open>
  \<open>MallocSiteTable::lookup_or_add\<close>. The result is the site returned (\<open>None\<close> for
  \<open>NULL\<close>), the values written to \<open>*bucket_idx\<close> and \<open>*pos_idx\<close>, and the state.
\<close>

definition lookup_or_add ::
  "(NativeCallStack \<Rightarrow> nat) \<Rightarrow> nat \<Rightarrow> NativeCallStack \<Rightarrow> MEMFLAGS \<Rightarrow> site_table \<Rightarrow>
   error + ((addr option \<times> nat \<times> nat) \<times> site_table)" where
  "lookup_or_add hash MAX_BUCKET_LENGTH key mflags s =
     (if mflags = mtNone then Inl AssertionFailure
      else
        (let index = hash_to_index s (hash key) in
         if \<not> index < table_size s then Inl InvalidAccess
         else
           (case (if table s ! index = None
                  then first_entry key mflags index s
                  else Inr (None, s)) of
              Inl err \<Rightarrow> Inl err
            | Inr (Some site, s') \<Rightarrow> Inr ((site, index, 0), s')
            | Inr (None, s') \<Rightarrow>
                (case lookup_loop MAX_BUCKET_LENGTH key mflags (table s' ! index) 0 s' of
                   Inl err \<Rightarrow> Inl err
                 | Inr ((site, pos_idx), s'') \<Rightarrow> Inr ((site, index, pos_idx), s'')))))"

text \<open>
  A sequence of calls, each with a key and a memory category of its own: the next call
  runs on the state the previous call left, and a failure ends the sequence.
\<close>

fun lookup_or_add_calls ::
  "(NativeCallStack \<Rightarrow> nat) \<Rightarrow> nat \<Rightarrow> (NativeCallStack \<times> MEMFLAGS) list \<Rightarrow> site_table \<Rightarrow>
   error + site_table" where
  "lookup_or_add_calls hash MAX_BUCKET_LENGTH [] s = Inr s"
| "lookup_or_add_calls hash MAX_BUCKET_LENGTH ((key, mflags) # calls) s =
     (case lookup_or_add hash MAX_BUCKET_LENGTH key mflags s of
        Inl err \<Rightarrow> Inl err
      | Inr (r, s') \<Rightarrow> lookup_or_add_calls hash MAX_BUCKET_LENGTH calls s')"

text \<open>\<open>MallocSiteTable::malloc_site\<close>: the loop, and the function.\<close>

function malloc_site_loop ::
  "nat \<Rightarrow> nat \<Rightarrow> addr option \<Rightarrow> site_table \<Rightarrow> error + addr option" where
  "malloc_site_loop index pos_idx head s =
     (case head of
        None \<Rightarrow> Inr head
      | Some h \<Rightarrow>
          if index < pos_idx then
            (case heap s h of
               None \<Rightarrow> Inl InvalidAccess
             | Some e \<Rightarrow> malloc_site_loop (index + 1) pos_idx (next_entry e) s)
          else Inr head)"
  by pat_completeness auto
termination
  by (relation "measure (\<lambda>(index, pos_idx, head, s). pos_idx - index)") auto

definition malloc_site :: "nat \<Rightarrow> nat \<Rightarrow> site_table \<Rightarrow> error + addr" where
  "malloc_site bucket_idx pos_idx s =
     (if \<not> bucket_idx < table_size s then Inl AssertionFailure
      else
        (case malloc_site_loop 0 pos_idx (table s ! bucket_idx) s of
           Inl err \<Rightarrow> Inl err
         | Inr None \<Rightarrow> Inl AssertionFailure
         | Inr (Some h) \<Rightarrow> Inr h))"

text \<open>
  \<open>MallocSiteTable::walk\<close>. The walker is a state \<open>w\<close> and its \<open>do_malloc_site\<close>,
  which reads the site and returns whether to go on, and the walker's new state. A chain
  that never ends is walked forever: the walk of a chain is a partial function, and
  \<open>None\<close> is the walk that does not return. The boolean of a chain's walk tells whether
  the walker asked for more.
\<close>

partial_function (option) walk_chain ::
  "('w \<Rightarrow> MallocSite \<Rightarrow> bool \<times> 'w) \<Rightarrow> addr option \<Rightarrow> 'w \<Rightarrow> site_table \<Rightarrow>
   (error + (bool \<times> 'w)) option" where
  "walk_chain do_malloc_site head w s =
     (case head of
        None \<Rightarrow> Some (Inr (True, w))
      | Some h \<Rightarrow>
          (case heap s h of
             None \<Rightarrow> Some (Inl InvalidAccess)
           | Some e \<Rightarrow>
               (let (continue, w') = do_malloc_site w (data e) in
                if \<not> continue then Some (Inr (False, w'))
                else walk_chain do_malloc_site (next_entry e) w' s)))"

function walk_loop ::
  "('w \<Rightarrow> MallocSite \<Rightarrow> bool \<times> 'w) \<Rightarrow> nat \<Rightarrow> 'w \<Rightarrow> site_table \<Rightarrow>
   (error + (bool \<times> 'w)) option" where
  "walk_loop do_malloc_site index w s =
     (if index < table_size s then
        (case walk_chain do_malloc_site (table s ! index) w s of
           None \<Rightarrow> None
         | Some (Inl err) \<Rightarrow> Some (Inl err)
         | Some (Inr (continue, w')) \<Rightarrow>
             if \<not> continue then Some (Inr (False, w'))
             else walk_loop do_malloc_site (index + 1) w' s)
      else Some (Inr (True, w)))"
  by pat_completeness auto
termination
  by (relation "measure (\<lambda>(do_malloc_site, index, w, s). table_size s - index)") auto

definition walk ::
  "('w \<Rightarrow> MallocSite \<Rightarrow> bool \<times> 'w) \<Rightarrow> 'w \<Rightarrow> site_table \<Rightarrow> (error + (bool \<times> 'w)) option" where
  "walk do_malloc_site w s = walk_loop do_malloc_site 0 w s"

text \<open>A walker that counts the sites it is given.\<close>

definition counting_walker :: "nat \<Rightarrow> MallocSite \<Rightarrow> bool \<times> nat" where
  "counting_walker n site = (True, n + 1)"

text \<open>
  \<open>MallocSiteTable::delete_linked_list\<close>. Reading \<open>head->next()\<close> of an entry that
  was deleted is an invalid access; a chain that never ends and is never deleted (the
  bootstrap entry pointing to itself) is walked forever.
\<close>

partial_function (option) delete_linked_list ::
  "addr option \<Rightarrow> site_table \<Rightarrow> (error + site_table) option" where
  "delete_linked_list head s =
     (case head of
        None \<Rightarrow> Some (Inr s)
      | Some p \<Rightarrow>
          (case heap s p of
             None \<Rightarrow> Some (Inl InvalidAccess)
           | Some e \<Rightarrow>
               if Some p \<noteq> hash_entry_allocation_site s then
                 (case delete_entry p s of
                    Inl err \<Rightarrow> Some (Inl err)
                  | Inr s' \<Rightarrow> delete_linked_list (next_entry e) s')
               else delete_linked_list (next_entry e) s))"

text \<open>\<open>MallocSiteTable::reset\<close>: the loop over the buckets, and the function.\<close>

partial_function (option) reset_loop :: "nat \<Rightarrow> site_table \<Rightarrow> (error + site_table) option" where
  "reset_loop index s =
     (if index < table_size s then
        (case delete_linked_list (table s ! index) (s\<lparr>table := (table s)[index := None]\<rparr>) of
           None \<Rightarrow> None
         | Some (Inl err) \<Rightarrow> Some (Inl err)
         | Some (Inr s') \<Rightarrow> reset_loop (index + 1) s')
      else Some (Inr s))"

definition reset :: "site_table \<Rightarrow> (error + site_table) option" where
  "reset s =
     (case reset_loop 0 s of
        None \<Rightarrow> None
      | Some (Inl err) \<Rightarrow> Some (Inl err)
      | Some (Inr s') \<Rightarrow>
          Some (Inr (s'\<lparr>hash_entry_allocation_stack := None,
                        hash_entry_allocation_site := None\<rparr>)))"

text \<open>
  The chain of a bucket: \<open>is_chain h p as\<close> says that in the memory \<open>h\<close> the pointer
  \<open>p\<close> is the head of a chain that ends with a null \<open>_next\<close> and whose entries are, in
  order, at the addresses \<open>as\<close>.
\<close>

fun is_chain :: "(addr \<rightharpoonup> MallocSiteHashtableEntry) \<Rightarrow> addr option \<Rightarrow> addr list \<Rightarrow> bool" where
  "is_chain h p [] = (p = None)"
| "is_chain h p (a # as) =
     (p = Some a \<and> (case h a of None \<Rightarrow> False | Some e \<Rightarrow> is_chain h (next_entry e) as))"

text \<open>
  The chains of a table: \<open>css\<close> lists, bucket by bucket, the entries of each bucket's
  chain, and no entry is in two chains.
\<close>

definition table_chains :: "site_table \<Rightarrow> addr list list \<Rightarrow> bool" where
  "table_chains s css = (list_all2 (is_chain (heap s)) (table s) css \<and> distinct (concat css))"

text \<open>The allocator hands out only addresses that are not live objects.\<close>

definition fresh_store :: "site_table \<Rightarrow> bool" where
  "fresh_store s = list_all (\<lambda>p. heap s p = None) (free_store s)"

text \<open>An entry matches a key and a memory category.\<close>

definition matches :: "NativeCallStack \<Rightarrow> MEMFLAGS \<Rightarrow> MallocSiteHashtableEntry \<Rightarrow> bool" where
  "matches key mflags e = (flags (data e) = mflags \<and> call_stack (data e) = key)"

text \<open>
  A part of a chain: \<open>path h p as q\<close> says that in the memory \<open>h\<close> the entries at the
  addresses \<open>as\<close> lead, in order, from the pointer \<open>p\<close> to the pointer \<open>q\<close>.
\<close>

fun path ::
  "(addr \<rightharpoonup> MallocSiteHashtableEntry) \<Rightarrow> addr option \<Rightarrow> addr list \<Rightarrow> addr option \<Rightarrow> bool" where
  "path h p [] q = (p = q)"
| "path h p (a # as) q =
     (p = Some a \<and> (case h a of None \<Rightarrow> False | Some e \<Rightarrow> path h (next_entry e) as q))"

text \<open>
  The first match of a chain: the entry \<open>site\<close> matches the key and the category, the
  entries \<open>as\<close> lead from \<open>head\<close> to it, and none of them matches.
\<close>

definition first_match ::
  "NativeCallStack \<Rightarrow> MEMFLAGS \<Rightarrow> (addr \<rightharpoonup> MallocSiteHashtableEntry) \<Rightarrow> addr option \<Rightarrow>
   addr list \<Rightarrow> addr \<Rightarrow> bool" where
  "first_match key mflags h head as site =
     (path h head as (Some site) \<and>
      list_all (\<lambda>a. case h a of None \<Rightarrow> False | Some e \<Rightarrow> \<not> matches key mflags e) as \<and>
      (case h site of None \<Rightarrow> False | Some e \<Rightarrow> matches key mflags e))"

text \<open>The memory after the entries \<open>as\<close>, the bootstrap entry apart, were deleted.\<close>

definition deleted ::
  "addr option \<Rightarrow> addr list \<Rightarrow> (addr \<rightharpoonup> MallocSiteHashtableEntry) \<Rightarrow>
   (addr \<rightharpoonup> MallocSiteHashtableEntry)" where
  "deleted site as h = (\<lambda>a. if a \<in> set as \<and> Some a \<noteq> site then None else h a)"

section \<open>Access lock (MallocSiteTable::AccessLock)\<close>

text \<open>
  The access counter \<open>_access_count\<close> is a \<open>volatile int\<close> that several threads read
  and write; every read of \<open>*_lock\<close> is a load of its own and other threads run between
  two of them. The model is a step function on the counter, the locals of the one thread
  that executes \<open>exclusiveLock\<close>, and the number of threads that hold a shared lock. The
  writer's program counter names the statement it executes next.
\<close>

datatype writer_pc =
  Enter | ReadVal | ReadTarget | CompareExchange | WaitReaders | ExclusiveHeld

record access_lock =
  lock :: "32 word"
  val :: "32 word"
  target :: "32 word"
  pc :: writer_pc
  shared_holders :: nat

text \<open>
  \<open>MallocSiteTable::AccessLock::exclusiveLock\<close>, a statement at a time. \<open>_MAGIC_\<close> is
  defined in a header that is not in the sources and is the parameter \<open>MAGIC\<close>. The
  writer enters once (line 225). Line 226 asserts that the counter is not negative; lines 230 and 231 read the counter, each on
  its own; line 232 stores \<open>target\<close> if the counter still is \<open>val\<close> and goes back to
  line 230 otherwise; line 235 leaves the waiting loop when the counter is \<open>_MAGIC_\<close>,
  and then the lock is held.
\<close>

definition exclusiveLock_step :: "32 word \<Rightarrow> access_lock \<Rightarrow> error + access_lock" where
  "exclusiveLock_step MAGIC s =
     (case pc s of
        Enter \<Rightarrow> if 0 \<le>s lock s then Inr (s\<lparr>pc := ReadVal\<rparr>) else Inl AssertionFailure
      | ReadVal \<Rightarrow> Inr (s\<lparr>val := lock s, pc := ReadTarget\<rparr>)
      | ReadTarget \<Rightarrow> Inr (s\<lparr>target := MAGIC + lock s, pc := CompareExchange\<rparr>)
      | CompareExchange \<Rightarrow>
          if lock s = val s then Inr (s\<lparr>lock := target s, pc := WaitReaders\<rparr>)
          else Inr (s\<lparr>pc := ReadVal\<rparr>)
      | WaitReaders \<Rightarrow> if lock s \<noteq> MAGIC then Inr s else Inr (s\<lparr>pc := ExclusiveHeld\<rparr>)
      | ExclusiveHeld \<Rightarrow> Inr s)"

text \<open>
  Modelled from the spec: \<open>sharedLock\<close> and the release of a shared lock are declared in
  a header that is not in the sources. \<open>sharedLock\<close> increments the counter, but only if
  it is not negative, and fails without blocking otherwise; the release decrements it.
\<close>

definition sharedLock :: "access_lock \<Rightarrow> access_lock" where
  "sharedLock s =
     (if 0 \<le>s lock s
      then s\<lparr>lock := lock s + 1, shared_holders := shared_holders s + 1\<rparr>
      else s)"

definition sharedUnlock :: "access_lock \<Rightarrow> access_lock" where
  "sharedUnlock s =
     (if 0 < shared_holders s
      then s\<lparr>lock := lock s - 1, shared_holders := shared_holders s - 1\<rparr>
      else s)"

text \<open>
  A schedule is the order in which the threads take their steps: the writer executes its
  next statement, a reader calls \<open>sharedLock\<close>, or a reader that holds a shared lock
  releases it.
\<close>

datatype event = WriterStep | ReaderLocks | ReaderUnlocks

fun run :: "32 word \<Rightarrow> event list \<Rightarrow> access_lock \<Rightarrow> error + access_lock" where
  "run MAGIC [] s = Inr s"
| "run MAGIC (WriterStep # es) s =
     (case exclusiveLock_step MAGIC s of Inl err \<Rightarrow> Inl err | Inr s' \<Rightarrow> run MAGIC es s')"
| "run MAGIC (ReaderLocks # es) s = run MAGIC es (sharedLock s)"
| "run MAGIC (ReaderUnlocks # es) s = run MAGIC es (sharedUnlock s)"

section \<open>Properties of the G1 barrier set\<close>

lemma enqueue_fields [simp]:
  "byte_map (dirty_card_queue_enqueue b s) = byte_map s"
  "dirty_card_queue (dirty_card_queue_enqueue b s) = dirty_card_queue s @ [b]"
  "satb_mark_queue (dirty_card_queue_enqueue b s) = satb_mark_queue s"
  "satb_is_active (dirty_card_queue_enqueue b s) = satb_is_active s"
  by (simp_all add: dirty_card_queue_enqueue_def)

declare invalidate_loop.simps [simp del] skip_young.simps [simp del]

lemma invalidate_loop_fields:
  "byte_map (invalidate_loop young dirty b l s) c =
     (if b \<le> c \<and> c \<le> l \<and> byte_map s c \<noteq> young \<and> byte_map s c \<noteq> dirty
          then dirty else byte_map s c) \<and>
   dirty_card_queue (invalidate_loop young dirty b l s) =
     dirty_card_queue s @
       filter (\<lambda>c. byte_map s c \<noteq> young \<and> byte_map s c \<noteq> dirty) [b ..< Suc l] \<and>
   satb_mark_queue (invalidate_loop young dirty b l s) = satb_mark_queue s \<and>
   satb_is_active (invalidate_loop young dirty b l s) = satb_is_active s"
proof (induction young dirty b l s rule: invalidate_loop.induct)
  case (1 young dirty byte last_byte s)
  show ?case
  proof (cases "byte \<le> last_byte")
    case False
    then show ?thesis by (simp add: invalidate_loop.simps [of young dirty byte last_byte s])
  next
    case True
    let ?P = "\<lambda>t c. byte_map t c \<noteq> young \<and> byte_map t c \<noteq> dirty"
    define s' where "s' = (if ?P s byte
        then dirty_card_queue_enqueue byte (s\<lparr>byte_map := (byte_map s)(byte := dirty)\<rparr>) else s)"
    have step: "invalidate_loop young dirty byte last_byte s =
        invalidate_loop young dirty (byte + 1) last_byte s'"
      using True by (simp add: invalidate_loop.simps [of young dirty byte last_byte s] s'_def Let_def)
    have IH: "byte_map (invalidate_loop young dirty (byte + 1) last_byte s') c =
       (if byte + 1 \<le> c \<and> c \<le> last_byte \<and> ?P s' c then dirty else byte_map s' c) \<and>
     dirty_card_queue (invalidate_loop young dirty (byte + 1) last_byte s') =
       dirty_card_queue s' @ filter (?P s') [byte + 1 ..< Suc last_byte] \<and>
     satb_mark_queue (invalidate_loop young dirty (byte + 1) last_byte s') = satb_mark_queue s' \<and>
     satb_is_active (invalidate_loop young dirty (byte + 1) last_byte s') = satb_is_active s'"
      using "1.IH" [OF True refl, of s'] by (simp add: s'_def)
    have same: "\<And>c. byte < c \<Longrightarrow> byte_map s' c = byte_map s c"
      by (simp add: s'_def)
    have filt: "filter (?P s') [byte + 1 ..< Suc last_byte] = filter (?P s) [byte + 1 ..< Suc last_byte]"
      by (rule filter_cong) (auto simp: same)
    have upt: "[byte ..< Suc last_byte] = byte # [byte + 1 ..< Suc last_byte]"
      using True by (simp add: upt_conv_Cons)
    have q: "dirty_card_queue s' @ filter (?P s) [byte + 1 ..< Suc last_byte] =
             dirty_card_queue s @ filter (?P s) [byte ..< Suc last_byte]"
      unfolding upt by (simp add: s'_def)
    have m: "(if byte + 1 \<le> c \<and> c \<le> last_byte \<and> ?P s' c then dirty else byte_map s' c) =
             (if byte \<le> c \<and> c \<le> last_byte \<and> ?P s c then dirty else byte_map s c)"
    proof (cases "c = byte")
      case True
      then show ?thesis using \<open>byte \<le> last_byte\<close> by (simp add: s'_def)
    next
      case False
      then have "byte_map s' c = byte_map s c" by (simp add: s'_def)
      moreover have "(byte + 1 \<le> c) = (byte \<le> c)" using False by auto
      ultimately show ?thesis by simp
    qed
    have o: "satb_mark_queue s' = satb_mark_queue s" "satb_is_active s' = satb_is_active s"
      by (simp_all add: s'_def)
    show ?thesis
      unfolding step using IH by (simp only: filt q m o)
  qed
qed

lemma skip_young_props:
  "b \<le> skip_young young s b l \<and>
   (\<forall>c. b \<le> c \<and> c < skip_young young s b l \<longrightarrow> c \<le> l \<and> byte_map s c = young)"
proof (induction young s b l rule: skip_young.induct)
  case (1 young s byte last_byte)
  show ?case
  proof (cases "byte \<le> last_byte \<and> byte_map s byte = young")
    case False
    have "skip_young young s byte last_byte = byte"
      by (subst skip_young.simps) (simp only: False if_False)
    then show ?thesis by auto
  next
    case True
    have step: "skip_young young s byte last_byte = skip_young young s (byte + 1) last_byte"
      using True by (simp add: skip_young.simps [of young s byte last_byte])
    have IH: "byte + 1 \<le> skip_young young s (byte + 1) last_byte"
      "\<And>c. byte + 1 \<le> c \<Longrightarrow> c < skip_young young s (byte + 1) last_byte \<Longrightarrow>
         c \<le> last_byte \<and> byte_map s c = young"
      using "1.IH" [OF True] by auto
    have "c \<le> last_byte \<and> byte_map s c = young"
      if "byte \<le> c" "c < skip_young young s (byte + 1) last_byte" for c
    proof (cases "c = byte")
      case True
      then show ?thesis using \<open>byte \<le> last_byte \<and> byte_map s byte = young\<close> by simp
    next
      case False
      then have "byte + 1 \<le> c" using that(1) by simp
      then show ?thesis using IH(2) that(2) by blast
    qed
    then show ?thesis unfolding step using IH(1) by auto
  qed
qed

lemma filter_all_young:
  assumes "\<And>c. a \<le> c \<Longrightarrow> c < b \<Longrightarrow> \<not> P c"
  shows "filter P [a ..< b] = []"
  using assms by (auto simp: filter_empty_conv)

lemma invalidate_fields:
  assumes ne: "\<not> is_empty mr"
  shows "byte_map (invalidate card_size young dirty mr s) c =
     (if byte_for card_size (start mr) \<le> c \<and> c \<le> byte_for card_size (last_word mr) \<and>
         byte_map s c \<noteq> young \<and> byte_map s c \<noteq> dirty
      then dirty else byte_map s c) \<and>
   dirty_card_queue (invalidate card_size young dirty mr s) =
     dirty_card_queue s @
       filter (\<lambda>c. byte_map s c \<noteq> young \<and> byte_map s c \<noteq> dirty)
         [byte_for card_size (start mr) ..< Suc (byte_for card_size (last_word mr))] \<and>
   satb_mark_queue (invalidate card_size young dirty mr s) = satb_mark_queue s \<and>
   satb_is_active (invalidate card_size young dirty mr s) = satb_is_active s"
proof -
  let ?f = "byte_for card_size (start mr)"
  let ?l = "byte_for card_size (last_word mr)"
  let ?b = "skip_young young s ?f ?l"
  let ?P = "\<lambda>c. byte_map s c \<noteq> young \<and> byte_map s c \<noteq> dirty"
  have le: "?f \<le> ?b" and yg: "\<And>c. ?f \<le> c \<Longrightarrow> c < ?b \<Longrightarrow> c \<le> ?l \<and> byte_map s c = young"
    using skip_young_props [of ?f young s ?l] by auto
  have skipped: "filter ?P [?f ..< ?b] = []"
    by (rule filter_all_young) (use yg in blast)
  show ?thesis
  proof (cases "?b \<le> ?l")
    case True
    have inv: "invalidate card_size young dirty mr s = invalidate_loop young dirty ?b ?l s"
      using ne True by (simp add: invalidate_def Let_def)
    have split: "[?f ..< Suc ?l] = [?f ..< ?b] @ [?b ..< Suc ?l]"
      using le True by (metis le_SucI upt_add_eq_append le_iff_add)
    have cond: "(?b \<le> c \<and> c \<le> ?l \<and> ?P c) = (?f \<le> c \<and> c \<le> ?l \<and> ?P c)"
      using le yg [of c] by (metis le_trans not_le_imp_less)
    show ?thesis
      unfolding inv using invalidate_loop_fields [of young dirty ?b ?l s c]
      by (simp only: split filter_append skipped append_Nil cond)
  next
    case False
    have inv: "invalidate card_size young dirty mr s = s"
      using ne False by (simp add: invalidate_def Let_def)
    have all: "\<And>c. ?f \<le> c \<Longrightarrow> c < Suc ?l \<Longrightarrow> \<not> ?P c"
      using yg False by (metis less_Suc_eq_le less_le_trans not_le_imp_less)
    have "filter ?P [?f ..< Suc ?l] = []"
      by (rule filter_all_young) (use all in blast)
    moreover have "\<not> (?f \<le> c \<and> c \<le> ?l \<and> ?P c)"
      using all [of c] by auto
    ultimately show ?thesis unfolding inv by simp
  qed
qed

lemma card_covers_interval:
  assumes "\<not> is_empty mr"
  shows "card_covers card_size mr c =
    (byte_for card_size (start mr) \<le> c \<and> c \<le> byte_for card_size (last_word mr))"
proof
  assume "card_covers card_size mr c"
  then obtain p where p: "start mr \<le> p" "p < start mr + word_size mr" "p div card_size = c"
    by (auto simp: card_covers_def byte_for_def)
  then have "p \<le> last_word mr" by (simp add: last_word_def)
  then show "byte_for card_size (start mr) \<le> c \<and> c \<le> byte_for card_size (last_word mr)"
    using p by (auto simp: byte_for_def div_le_mono)
next
  assume c: "byte_for card_size (start mr) \<le> c \<and> c \<le> byte_for card_size (last_word mr)"
  have pos: "0 < word_size mr" using assms by (simp add: is_empty_def)
  show "card_covers card_size mr c"
  proof (cases "c = byte_for card_size (start mr)")
    case True
    then show ?thesis using pos by (auto simp: card_covers_def intro!: bexI [of _ "start mr"])
  next
    case False
    then have lt: "start mr div card_size < c" using c by (simp add: byte_for_def)
    then have cpos: "0 < card_size" by (cases "card_size = 0") (use c in \<open>auto simp: byte_for_def\<close>)
    have "start mr < c * card_size"
      using lt cpos by (simp add: div_less_iff_less_mult)
    moreover have "c * card_size \<le> last_word mr"
      using c cpos by (simp add: byte_for_def less_eq_div_iff_mult_less_eq)
    moreover have "byte_for card_size (c * card_size) = c"
      using cpos by (simp add: byte_for_def)
    ultimately show ?thesis using pos
      by (auto simp: card_covers_def last_word_def intro!: bexI [of _ "c * card_size"])
  qed
qed

lemma count_list_distinct:
  "distinct xs \<Longrightarrow> x \<in> set xs \<Longrightarrow> count_list xs x = 1"
  by (induction xs) auto

text \<open>
  C5. For a region that is not empty, every card covering the region whose value is
  neither young nor dirty is dirty afterwards and is appended to the dirty-card queue
  exactly once; every other card (young, dirty, or not covering the region) keeps its
  value and is not appended.
\<close>

theorem invalidate_dirties_and_enqueues:
  assumes "\<not> is_empty mr"
  shows "\<exists>enq. dirty_card_queue (invalidate card_size young dirty mr s) = dirty_card_queue s @ enq \<and>
     (\<forall>c. if card_covers card_size mr c \<and> byte_map s c \<noteq> young \<and> byte_map s c \<noteq> dirty
          then byte_map (invalidate card_size young dirty mr s) c = dirty \<and> count_list enq c = 1
          else byte_map (invalidate card_size young dirty mr s) c = byte_map s c \<and> c \<notin> set enq)"
proof -
  let ?f = "byte_for card_size (start mr)"
  let ?l = "byte_for card_size (last_word mr)"
  let ?P = "\<lambda>c. byte_map s c \<noteq> young \<and> byte_map s c \<noteq> dirty"
  let ?enq = "filter ?P [?f ..< Suc ?l]"
  have d: "distinct ?enq" by simp
  have mem: "\<And>c. (c \<in> set ?enq) = (card_covers card_size mr c \<and> ?P c)"
    using card_covers_interval [OF assms] by auto
  have "dirty_card_queue (invalidate card_size young dirty mr s) = dirty_card_queue s @ ?enq"
    using invalidate_fields [OF assms] by blast
  moreover have "if card_covers card_size mr c \<and> ?P c
          then byte_map (invalidate card_size young dirty mr s) c = dirty \<and> count_list ?enq c = 1
          else byte_map (invalidate card_size young dirty mr s) c = byte_map s c \<and> c \<notin> set ?enq" for c
  proof (cases "card_covers card_size mr c \<and> ?P c")
    case True
    then have "c \<in> set ?enq" using mem by blast
    then have "count_list ?enq c = 1" using d by (rule count_list_distinct [rotated])
    moreover have "byte_map (invalidate card_size young dirty mr s) c = dirty"
      using invalidate_fields [OF assms, of card_size young dirty s c] True
        card_covers_interval [OF assms, of card_size c] by simp
    ultimately show ?thesis using True by simp
  next
    case False
    then have "c \<notin> set ?enq" using mem by blast
    moreover have "byte_map (invalidate card_size young dirty mr s) c = byte_map s c"
      using invalidate_fields [OF assms, of card_size young dirty s c] False
        card_covers_interval [OF assms, of card_size c] by auto
    ultimately show ?thesis using False by simp
  qed
  ultimately show ?thesis by blast
qed


theorem invalidate_dirties_and_enqueues_witness:
  "\<not> is_empty \<lparr>start = 2, word_size = 7\<rparr> \<and>
   (\<exists>enq. dirty_card_queue (invalidate 4 32 0 \<lparr>start = 2, word_size = 7\<rparr>
        \<lparr>byte_map = (\<lambda>c. 255)(0 := 32, 2 := 0), dirty_card_queue = [7],
         satb_mark_queue = [], satb_is_active = False\<rparr>) = [7] @ enq \<and>
      byte_map (invalidate 4 32 0 \<lparr>start = 2, word_size = 7\<rparr>
        \<lparr>byte_map = (\<lambda>c. 255)(0 := 32, 2 := 0), dirty_card_queue = [7],
         satb_mark_queue = [], satb_is_active = False\<rparr>) 1 = 0 \<and>
      count_list enq 1 = 1 \<and>
      byte_map (invalidate 4 32 0 \<lparr>start = 2, word_size = 7\<rparr>
        \<lparr>byte_map = (\<lambda>c. 255)(0 := 32, 2 := 0), dirty_card_queue = [7],
         satb_mark_queue = [], satb_is_active = False\<rparr>) 0 = 32 \<and>
      0 \<notin> set enq \<and> 2 \<notin> set enq \<and> 3 \<notin> set enq)"
proof -
  let ?mr = "\<lparr>start = 2, word_size = 7\<rparr>"
  let ?s = "\<lparr>byte_map = (\<lambda>c. 255)(0 := 32, 2 := 0), dirty_card_queue = [7::nat],
         satb_mark_queue = [], satb_is_active = False\<rparr>"
  have ne: "\<not> is_empty ?mr" by (simp add: is_empty_def)
  have c1: "card_covers 4 ?mr 1"
    by (auto simp: card_covers_def byte_for_def intro!: bexI [of _ 4])
  have c3: "\<not> card_covers 4 ?mr 3"
    by (auto simp: card_covers_def byte_for_def)
  obtain enq where q: "dirty_card_queue (invalidate 4 32 0 ?mr ?s) = dirty_card_queue ?s @ enq"
    and a: "\<And>c. if card_covers 4 ?mr c \<and> byte_map ?s c \<noteq> 32 \<and> byte_map ?s c \<noteq> 0
          then byte_map (invalidate 4 32 0 ?mr ?s) c = 0 \<and> count_list enq c = 1
          else byte_map (invalidate 4 32 0 ?mr ?s) c = byte_map ?s c \<and> c \<notin> set enq"
    using invalidate_dirties_and_enqueues [OF ne, of 4 32 0 ?s] by blast
  show ?thesis
    using ne q a [of 0] a [of 1] a [of 2] a [of 3] c1 c3
    by (intro conjI exI [of _ enq]) simp_all
qed

text \<open>
  C7. Invalidating an empty region does nothing: the state returned is the state given, so
  no card is enqueued and no entry of the card table changes.
\<close>

theorem invalidate_empty_region:
  "is_empty mr \<Longrightarrow> invalidate card_size young dirty mr s = s"
  by (simp add: invalidate_def)

theorem invalidate_empty_region_witness:
  "is_empty \<lparr>start = 16, word_size = 0\<rparr> \<and>
   invalidate 64 32 0 \<lparr>start = 16, word_size = 0\<rparr>
     \<lparr>byte_map = (\<lambda>c. 255), dirty_card_queue = [3], satb_mark_queue = [], satb_is_active = True\<rparr> =
     \<lparr>byte_map = (\<lambda>c. 255), dirty_card_queue = [3], satb_mark_queue = [], satb_is_active = True\<rparr>"
proof -
  have e: "is_empty \<lparr>start = 16, word_size = 0\<rparr>" by (simp add: is_empty_def)
  show ?thesis using e invalidate_empty_region [OF e] by simp
qed

text \<open>
  C3. On a card that is not young, \<open>write_ref_field_post_slow\<close> does nothing when the
  card is dirty already; otherwise it sets the card to dirty and appends its address to
  the dirty-card queue once. So a queue in which no card stands twice and every card is
  dirty stays such a queue: a card is enqueued at most once until the queue is drained.
\<close>

theorem write_ref_field_post_slow_enqueues_once:
  assumes "byte_map s byte \<noteq> young"
  shows "write_ref_field_post_slow young dirty byte s =
      Inr (if byte_map s byte = dirty then s
           else s\<lparr>byte_map := (byte_map s)(byte := dirty),
                  dirty_card_queue := dirty_card_queue s @ [byte]\<rparr>) \<and>
    (enqueued_once dirty s \<longrightarrow>
      (\<exists>s'. write_ref_field_post_slow young dirty byte s = Inr s' \<and> enqueued_once dirty s'))"
proof -
  have r: "write_ref_field_post_slow young dirty byte s =
      Inr (if byte_map s byte = dirty then s
           else s\<lparr>byte_map := (byte_map s)(byte := dirty),
                  dirty_card_queue := dirty_card_queue s @ [byte]\<rparr>)"
    using assms by (simp add: write_ref_field_post_slow_def dirty_card_queue_enqueue_def)
  have "enqueued_once dirty (if byte_map s byte = dirty then s
           else s\<lparr>byte_map := (byte_map s)(byte := dirty),
                  dirty_card_queue := dirty_card_queue s @ [byte]\<rparr>)"
    if "enqueued_once dirty s"
    using that by (auto simp: enqueued_once_def list_all_iff)
  then show ?thesis using r by simp
qed

theorem write_ref_field_post_slow_enqueues_once_witness:
  "byte_map \<lparr>byte_map = (\<lambda>c. 255)(2 := 0), dirty_card_queue = [2],
       satb_mark_queue = [], satb_is_active = False\<rparr> 5 \<noteq> 32 \<and>
   write_ref_field_post_slow 32 0 5
     \<lparr>byte_map = (\<lambda>c. 255)(2 := 0), dirty_card_queue = [2],
       satb_mark_queue = [], satb_is_active = False\<rparr> =
     Inr \<lparr>byte_map = (\<lambda>c. 255)(2 := 0, 5 := 0), dirty_card_queue = [2, 5],
       satb_mark_queue = [], satb_is_active = False\<rparr> \<and>
   enqueued_once 0 \<lparr>byte_map = (\<lambda>c. 255)(2 := 0), dirty_card_queue = [2],
       satb_mark_queue = [], satb_is_active = False\<rparr> \<and>
   enqueued_once 0 \<lparr>byte_map = (\<lambda>c. 255)(2 := 0, 5 := 0), dirty_card_queue = [2, 5],
       satb_mark_queue = [], satb_is_active = False\<rparr>"
proof -
  let ?s = "\<lparr>byte_map = (\<lambda>c. 255)(2 := 0), dirty_card_queue = [2::nat],
       satb_mark_queue = [], satb_is_active = False\<rparr>"
  have h: "byte_map ?s 5 \<noteq> 32" by simp
  have i: "enqueued_once 0 ?s" by (simp add: enqueued_once_def)
  show ?thesis
    using h i write_ref_field_post_slow_enqueues_once [OF h, of 0]
    by auto
qed

lemma satb_enqueue_active:
  "satb_is_active s \<Longrightarrow> enqueue v s = s\<lparr>satb_mark_queue := satb_mark_queue s @ [v]\<rparr>"
  by (simp add: enqueue_def satb_mark_queue_enqueue_def)

declare write_ref_array_pre_loop.simps [simp del]

lemma write_ref_array_pre_loop_eq:
  "satb_is_active s \<Longrightarrow>
   write_ref_array_pre_loop is_null decode_not_null mem p i count s =
     s\<lparr>satb_mark_queue := satb_mark_queue s @
         map decode_not_null (filter (\<lambda>v. \<not> is_null v) (map mem [p ..< p + (count - i)]))\<rparr>"
proof (induction is_null decode_not_null mem p i count s rule: write_ref_array_pre_loop.induct)
  case (1 is_null decode_not_null mem elem_ptr i count s)
  show ?case
  proof (cases "i < count")
    case False
    then show ?thesis
      by (subst write_ref_array_pre_loop.simps) simp
  next
    case True
    define s' where "s' = (if \<not> is_null (mem elem_ptr) then enqueue (decode_not_null (mem elem_ptr)) s else s)"
    have act: "satb_is_active s'"
      using "1.prems" by (simp add: s'_def satb_enqueue_active)
    have step: "write_ref_array_pre_loop is_null decode_not_null mem elem_ptr i count s =
        write_ref_array_pre_loop is_null decode_not_null mem (elem_ptr + 1) (i + 1) count s'"
      using True by (subst write_ref_array_pre_loop.simps) (simp add: s'_def Let_def)
    have IH: "write_ref_array_pre_loop is_null decode_not_null mem (elem_ptr + 1) (i + 1) count s' =
        s'\<lparr>satb_mark_queue := satb_mark_queue s' @
         map decode_not_null (filter (\<lambda>v. \<not> is_null v)
           (map mem [elem_ptr + 1 ..< elem_ptr + 1 + (count - (i + 1))]))\<rparr>"
      using "1.IH" [OF True refl, of s'] act by (simp add: s'_def)
    have k: "count - i = Suc (count - (i + 1))"
      using True by simp
    have upt: "[elem_ptr ..< elem_ptr + (count - i)] =
        elem_ptr # [elem_ptr + 1 ..< elem_ptr + 1 + (count - (i + 1))]"
      unfolding k by (simp add: upt_conv_Cons)
    show ?thesis
      unfolding step IH upt using "1.prems"
      by (simp add: s'_def satb_enqueue_active)
  qed
qed

lemma upt_shift: "[p ..< p + n] = map (\<lambda>i. p + i) [0 ..< n]"
  by (induction n) auto

text \<open>
  C6. Both overloads of \<open>write_ref_array_pre\<close> leave the state as it is when the
  destination is uninitialized or the SATB queue set is inactive. Otherwise they append to
  the SATB queue the values of the slots \<open>dst, ..., dst + count - 1\<close> that are not null,
  in ascending slot order (decoded, for compressed references), and change nothing else.
\<close>

theorem write_ref_array_pre_enqueues:
  "write_ref_array_pre mem dst count dest_uninitialized s =
     (if dest_uninitialized \<or> \<not> satb_is_active s then s
      else s\<lparr>satb_mark_queue := satb_mark_queue s @
             filter (\<lambda>v. v \<noteq> 0) (map (\<lambda>i. mem (dst + i)) [0 ..< count])\<rparr>) \<and>
   write_ref_array_pre_narrow decode_not_null nmem dst count dest_uninitialized s =
     (if dest_uninitialized \<or> \<not> satb_is_active s then s
      else s\<lparr>satb_mark_queue := satb_mark_queue s @
             map decode_not_null
               (filter (\<lambda>v. v \<noteq> 0) (map (\<lambda>i. nmem (dst + i)) [0 ..< count]))\<rparr>)"
  by (simp add: write_ref_array_pre_def write_ref_array_pre_narrow_def
      write_ref_array_pre_work_def write_ref_array_pre_loop_eq upt_shift comp_def)

theorem write_ref_array_pre_enqueues_witness:
  "write_ref_array_pre ((\<lambda>a. 0)(10 := 7, 12 := 9, 13 := 4)) 10 3 False
     \<lparr>byte_map = (\<lambda>c. 255), dirty_card_queue = [], satb_mark_queue = [1],
      satb_is_active = True\<rparr> =
     \<lparr>byte_map = (\<lambda>c. 255), dirty_card_queue = [], satb_mark_queue = [1, 7, 9],
      satb_is_active = True\<rparr>"
  using write_ref_array_pre_enqueues [of "((\<lambda>a. 0)(10 := 7, 12 := 9, 13 := 4))" 10 3 False
     "\<lparr>byte_map = (\<lambda>c. 255), dirty_card_queue = [], satb_mark_queue = [1],
      satb_is_active = True\<rparr>" unat "\<lambda>a. 0"]
  by (simp add: upt_rec)


section \<open>Properties of the malloc site table\<close>

subsection \<open>Lookup and insertion\<close>

declare lookup_loop.simps [simp del] malloc_site_loop.simps [simp del]

lemma new_entry_eq:
  "new_entry key mflags s =
     (case hash_entry_allocation_stack s of
        None \<Rightarrow> Inl InvalidAccess
      | Some stack \<Rightarrow>
          (case free_store s of
             [] \<Rightarrow> Inr (None, s)
           | p # ps \<Rightarrow> Inr (Some p, s\<lparr>free_store := ps,
                 heap := (heap s)(p \<mapsto> \<lparr>data = \<lparr>call_stack = key, flags = mflags\<rparr>, next_entry = None\<rparr>)\<rparr>)))"
  by (simp add: new_entry_def AllocateHeap_def split: option.splits list.splits)

lemma try_append_tail:
  assumes "heap s h = Some e" "next_entry e = None" "heap s p = None" "free_store s = p # ps"
    "hash_entry_allocation_stack s = Some st"
  shows "try_append key mflags h pos s =
     Inr (Some (Some p, pos + 1), s\<lparr>free_store := ps,
        heap := (heap s)(p \<mapsto> \<lparr>data = \<lparr>call_stack = key, flags = mflags\<rparr>, next_entry = None\<rparr>,
                         h \<mapsto> e\<lparr>next_entry := Some p\<rparr>)\<rparr>)"
proof -
  have "p \<noteq> h" using assms by auto
  then show ?thesis
    using assms by (simp add: try_append_def new_entry_eq atomic_insert_def)
qed

lemma try_append_cases:
  assumes "heap s h = Some e" "next_entry e = None" "fresh_store s"
    "try_append key mflags h pos s = Inr (r, s')"
  shows "(r = Some (None, pos) \<and> s' = s \<and> free_store s = []) \<or>
     (\<exists>p ps. free_store s = p # ps \<and> heap s p = None \<and> r = Some (Some p, pos + 1) \<and>
        s' = s\<lparr>free_store := ps,
        heap := (heap s)(p \<mapsto> \<lparr>data = \<lparr>call_stack = key, flags = mflags\<rparr>, next_entry = None\<rparr>,
                         h \<mapsto> e\<lparr>next_entry := Some p\<rparr>)\<rparr>)"
proof (cases "hash_entry_allocation_stack s")
  case None
  then show ?thesis using assms(4) by (simp add: try_append_def new_entry_eq)
next
  case (Some st)
  show ?thesis
  proof (cases "free_store s")
    case Nil
    then show ?thesis using assms(4) Some by (simp add: try_append_def new_entry_eq)
  next
    case (Cons p ps)
    then have "heap s p = None" using assms(3) by (simp add: fresh_store_def)
    then show ?thesis
      using try_append_tail [OF assms(1,2) _ Cons Some, of key mflags pos] assms(4) Cons by auto
  qed
qed

lemma malloc_site_loop_shift:
  "malloc_site_loop (Suc i) (Suc p) head s = malloc_site_loop i p head s"
proof (induction i p head s rule: malloc_site_loop.induct)
  case (1 index pos_idx head s)
  show ?case
  proof (cases head)
    case None
    then show ?thesis by (simp add: malloc_site_loop.simps)
  next
    case (Some h)
    show ?thesis
    proof (cases "index < pos_idx")
      case False
      then show ?thesis using Some
        by (simp add: malloc_site_loop.simps [of index] malloc_site_loop.simps [of "Suc index"])
    next
      case True
      show ?thesis
      proof (cases "heap s h")
        case None
        then show ?thesis using Some True
          by (simp add: malloc_site_loop.simps [of index] malloc_site_loop.simps [of "Suc index"])
      next
        case (Some e)
        then show ?thesis using \<open>head = Some h\<close> True "1.IH" [OF \<open>head = Some h\<close> True Some]
          by (simp add: malloc_site_loop.simps [of index] malloc_site_loop.simps [of "Suc index"])
      qed
    qed
  qed
qed


lemma lookup_loop_None:
  "lookup_loop M key mf None pos s = Inr ((None, pos), s)"
  by (simp add: lookup_loop.simps)

lemma lookup_loop_beyond:
  "\<not> pos \<le> M \<Longrightarrow> lookup_loop M key mf (Some h) pos s = Inr ((None, pos), s)"
  by (simp add: lookup_loop.simps)

lemma lookup_loop_dangling:
  "pos \<le> M \<Longrightarrow> heap s h = None \<Longrightarrow> lookup_loop M key mf (Some h) pos s = Inl InvalidAccess"
  by (simp add: lookup_loop.simps)

lemma lookup_loop_found:
  "pos \<le> M \<Longrightarrow> heap s h = Some e \<Longrightarrow> matches key mf e \<Longrightarrow>
   lookup_loop M key mf (Some h) pos s = Inr ((Some h, pos), s)"
  by (simp add: lookup_loop.simps matches_def)

lemma lookup_loop_next:
  "pos \<le> M \<Longrightarrow> heap s h = Some e \<Longrightarrow> \<not> matches key mf e \<Longrightarrow>
   \<not> (next_entry e = None \<and> pos < M) \<Longrightarrow>
   lookup_loop M key mf (Some h) pos s = lookup_loop M key mf (next_entry e) (pos + 1) s"
  by (subst lookup_loop.simps) (auto simp: matches_def)

lemma lookup_loop_append:
  "pos \<le> M \<Longrightarrow> heap s h = Some e \<Longrightarrow> \<not> matches key mf e \<Longrightarrow>
   next_entry e = None \<Longrightarrow> pos < M \<Longrightarrow>
   try_append key mf h pos s = Inr (Some r, s') \<Longrightarrow>
   lookup_loop M key mf (Some h) pos s = Inr (r, s')"
  by (subst lookup_loop.simps) (auto simp: matches_def)

lemma malloc_site_loop_here:
  "malloc_site_loop i i head s = Inr head"
  by (subst malloc_site_loop.simps) (simp split: option.splits)

lemma malloc_site_loop_next:
  "i < p \<Longrightarrow> heap s h = Some e \<Longrightarrow>
   malloc_site_loop i p (Some h) s = malloc_site_loop (Suc i) p (next_entry e) s"
  by (subst malloc_site_loop.simps) simp

lemma lookup_loop_some:
  "fresh_store s \<Longrightarrow> lookup_loop M key mf head pos s = Inr ((Some site, pos'), s') \<Longrightarrow>
   ((s' = s \<and> (\<exists>e. heap s site = Some e \<and> matches key mf e)) \<or>
    (\<exists>ps tl e. free_store s = site # ps \<and> heap s site = None \<and> heap s tl = Some e \<and>
        next_entry e = None \<and>
        s' = s\<lparr>free_store := ps,
               heap := (heap s)(site \<mapsto> \<lparr>data = \<lparr>call_stack = key, flags = mf\<rparr>, next_entry = None\<rparr>,
                                tl \<mapsto> e\<lparr>next_entry := Some site\<rparr>)\<rparr>)) \<and>
   lookup_loop M key mf head pos s' = Inr ((Some site, pos'), s') \<and>
   pos \<le> pos' \<and> malloc_site_loop 0 (pos' - pos) head s' = Inr (Some site)"
proof (induction M key mf head pos s rule: lookup_loop.induct)
  case (1 M key mf head pos s)
  note fresh = "1.prems"(1) and res = "1.prems"(2)
  let ?N = "\<lparr>data = \<lparr>call_stack = key, flags = mf\<rparr>, next_entry = None\<rparr>"
  from res obtain h where head: "head = Some h"
    by (cases head) (auto simp: lookup_loop_None)
  from res head have le: "pos \<le> M"
    by (cases "pos \<le> M") (auto simp: lookup_loop_beyond)
  from res head le obtain e where e: "heap s h = Some e"
    by (cases "heap s h") (auto simp: lookup_loop_dangling)
  show ?case
  proof (cases "matches key mf e")
    case True
    have "lookup_loop M key mf head pos s = Inr ((Some h, pos), s)"
      unfolding head by (rule lookup_loop_found [OF le e True])
    with res have eqs: "site = h" "pos' = pos" "s' = s" by auto
    show ?thesis
      unfolding eqs head using le e True
      by (simp add: lookup_loop_found malloc_site_loop_here)
  next
    case nomatch: False
    show ?thesis
    proof (cases "next_entry e = None \<and> pos < M")
      case True
      then have tl: "next_entry e = None" and lt: "pos < M" by auto
      have "\<exists>r s1. try_append key mf h pos s = Inr (r, s1)"
        using res unfolding head
        by (subst (asm) lookup_loop.simps) (use le e nomatch True in
            \<open>auto simp: matches_def split: sum.splits option.splits prod.splits\<close>)
      then obtain r s1 where ta: "try_append key mf h pos s = Inr (r, s1)" by blast
      from try_append_cases [OF e tl fresh ta]
      consider (oom) "r = Some (None, pos)" "s1 = s"
        | (ok) p ps where "free_store s = p # ps" "heap s p = None" "r = Some (Some p, pos + 1)"
           "s1 = s\<lparr>free_store := ps, heap := (heap s)(p \<mapsto> ?N, h \<mapsto> e\<lparr>next_entry := Some p\<rparr>)\<rparr>"
        by blast
      then show ?thesis
      proof cases
        case oom
        have "lookup_loop M key mf head pos s = Inr ((None, pos), s1)"
          unfolding head using lookup_loop_append [OF le e nomatch tl lt] ta oom by simp
        with res show ?thesis by simp
      next
        case ok
        have r1: "lookup_loop M key mf head pos s = Inr ((Some p, pos + 1), s1)"
          unfolding head using lookup_loop_append [OF le e nomatch tl lt] ta ok(3) by simp
        with res have eqs: "site = p" "pos' = pos + 1" "s' = s1" by auto
        have ph: "p \<noteq> h" using ok(2) e by auto
        have hs1: "heap s1 h = Some (e\<lparr>next_entry := Some p\<rparr>)"
          by (simp add: ok(4))
        have ps1: "heap s1 p = Some ?N"
          using ph by (simp add: ok(4))
        have nm1: "\<not> matches key mf (e\<lparr>next_entry := Some p\<rparr>)"
          using nomatch by (simp add: matches_def)
        have mN: "matches key mf ?N" by (simp add: matches_def)
        have again: "lookup_loop M key mf (Some h) pos s1 = Inr ((Some p, pos + 1), s1)"
          using lookup_loop_next [OF le hs1 nm1] lookup_loop_found [OF _ ps1 mN, of "pos + 1" M] lt
          by simp
        have posn: "malloc_site_loop 0 (pos + 1 - pos) (Some h) s1 = Inr (Some p)"
          using malloc_site_loop_next [OF _ hs1, of 0 1] malloc_site_loop_here [of 1 "Some p" s1]
          by simp
        have app: "\<exists>ps tl e. free_store s = p # ps \<and> heap s p = None \<and> heap s tl = Some e \<and>
            next_entry e = None \<and>
            s1 = s\<lparr>free_store := ps,
               heap := (heap s)(p \<mapsto> ?N, tl \<mapsto> e\<lparr>next_entry := Some p\<rparr>)\<rparr>"
          using ok(1,2,4) e tl by blast
        show ?thesis
          unfolding eqs head by (intro conjI disjI2 app again posn) simp
      qed
    next
      case False
      have step: "lookup_loop M key mf head pos s = lookup_loop M key mf (next_entry e) (pos + 1) s"
        unfolding head by (rule lookup_loop_next [OF le e nomatch False])
      with res have rec: "lookup_loop M key mf (next_entry e) (pos + 1) s = Inr ((Some site, pos'), s')"
        by simp
      have nm: "\<not> (flags (data e) = mf \<and> call_stack (data e) = key)"
        using nomatch by (simp add: matches_def)
      have cond: "(if next_entry e = None \<and> pos < M then try_append key mf h pos s else Inr (None, s))
          = Inr (None, s)"
        by (rule if_not_P [OF False])
      note IH = "1.IH" [OF head le e nm cond refl refl e fresh rec]
      have nxt: "next_entry e \<noteq> None"
      proof
        assume "next_entry e = None"
        then show False using rec by (simp add: lookup_loop_None)
      qed
      from IH have cases': "(s' = s \<and> (\<exists>e. heap s site = Some e \<and> matches key mf e)) \<or>
        (\<exists>ps tl e. free_store s = site # ps \<and> heap s site = None \<and> heap s tl = Some e \<and>
          next_entry e = None \<and>
          s' = s\<lparr>free_store := ps,
               heap := (heap s)(site \<mapsto> ?N, tl \<mapsto> e\<lparr>next_entry := Some site\<rparr>)\<rparr>)"
        and again': "lookup_loop M key mf (next_entry e) (pos + 1) s' = Inr ((Some site, pos'), s')"
        and le': "pos + 1 \<le> pos'"
        and ms': "malloc_site_loop 0 (pos' - (pos + 1)) (next_entry e) s' = Inr (Some site)"
        by blast+
      have hs': "heap s' h = Some e"
        using cases' e nxt by auto
      have again: "lookup_loop M key mf (Some h) pos s' = Inr ((Some site, pos'), s')"
        using lookup_loop_next [OF le hs' nomatch False] again' by simp
      have "malloc_site_loop 0 (pos' - pos) (Some h) s' =
          malloc_site_loop (Suc 0) (Suc (pos' - (pos + 1))) (next_entry e) s'"
        using malloc_site_loop_next [OF _ hs', of 0 "pos' - pos"] le' by (simp add: Suc_diff_Suc)
      then have ms: "malloc_site_loop 0 (pos' - pos) (Some h) s' = Inr (Some site)"
        using ms' by (simp add: malloc_site_loop_shift)
      have "pos \<le> pos'" using le' by simp
      then show ?thesis
        unfolding head by (intro conjI cases' again ms)
    qed
  qed
qed


lemma first_entry_empty_bucket:
  assumes "table s ! index = None" "fresh_store s"
    "first_entry key mf index s = Inr (r, s')"
  shows "(r = Some None \<and> s' = s) \<or>
    (\<exists>p ps. free_store s = p # ps \<and> heap s p = None \<and> r = Some (Some p) \<and>
       s' = s\<lparr>free_store := ps,
              heap := (heap s)(p \<mapsto> \<lparr>data = \<lparr>call_stack = key, flags = mf\<rparr>, next_entry = None\<rparr>),
              table := (table s)[index := Some p]\<rparr>)"
proof (cases "hash_entry_allocation_stack s")
  case None
  then show ?thesis using assms(3) by (simp add: first_entry_def new_entry_eq)
next
  case (Some st)
  show ?thesis
  proof (cases "free_store s")
    case Nil
    then show ?thesis using assms(3) Some by (auto simp: first_entry_def new_entry_eq)
  next
    case (Cons p ps)
    then have "heap s p = None" using assms(2) by (simp add: fresh_store_def)
    then show ?thesis
      using assms(1,3) Some Cons
      by (auto simp: first_entry_def new_entry_eq replace_if_null_def)
  qed
qed

lemma lookup_or_add_some:
  assumes fresh: "fresh_store s"
    and res: "lookup_or_add hash M key mf s = Inr ((Some site, b, p), s')"
  shows "lookup_or_add hash M key mf s' = Inr ((Some site, b, p), s') \<and>
         malloc_site b p s' = Inr site \<and>
         (\<exists>e. heap s' site = Some e \<and> matches key mf e) \<and>
         ((s' = s \<and> site \<in> dom (heap s)) \<or>
          (site \<notin> dom (heap s) \<and> dom (heap s') = insert site (dom (heap s))))"
proof -
  let ?N = "\<lparr>data = \<lparr>call_stack = key, flags = mf\<rparr>, next_entry = None\<rparr>"
  let ?i = "hash_to_index s (hash key)"
  have nn: "mf \<noteq> mtNone"
    using res by (auto simp: lookup_or_add_def)
  have inb: "?i < table_size s"
    using res nn by (auto simp: lookup_or_add_def Let_def split: if_splits)
  show ?thesis
  proof (cases "table s ! ?i")
    case None
    have "\<exists>r s1. first_entry key mf ?i s = Inr (r, s1)"
      using res nn inb None
      by (auto simp: lookup_or_add_def Let_def split: sum.splits)
    then obtain r s1 where fe: "first_entry key mf ?i s = Inr (r, s1)" by blast
    from first_entry_empty_bucket [OF None fresh fe]
    consider (oom) "r = Some None" "s1 = s"
      | (ok) q qs where "free_store s = q # qs" "heap s q = None" "r = Some (Some q)"
          "s1 = s\<lparr>free_store := qs, heap := (heap s)(q \<mapsto> ?N),
                  table := (table s)[?i := Some q]\<rparr>"
      by blast
    then show ?thesis
    proof cases
      case oom
      then show ?thesis using res nn inb None fe by (simp add: lookup_or_add_def Let_def)
    next
      case ok
      have "lookup_or_add hash M key mf s = Inr ((Some q, ?i, 0), s1)"
        using nn inb None fe ok(3) by (simp add: lookup_or_add_def Let_def)
      with res have eqs: "site = q" "b = ?i" "p = 0" "s' = s1" by auto
      have ts: "table_size s1 = table_size s" by (simp add: ok(4) table_size_def)
      have hi: "hash_to_index s1 (hash key) = ?i" by (simp add: hash_to_index_def ts)
      have hd: "table s1 ! ?i = Some q"
        using inb by (simp add: ok(4) table_size_def)
      have hq: "heap s1 q = Some ?N" by (simp add: ok(4))
      have mN: "matches key mf ?N" by (simp add: matches_def)
      have ll: "lookup_loop M key mf (Some q) 0 s1 = Inr ((Some q, 0), s1)"
        by (rule lookup_loop_found [OF _ hq mN]) simp
      have again: "lookup_or_add hash M key mf s1 = Inr ((Some q, ?i, 0), s1)"
        using nn inb by (simp add: lookup_or_add_def Let_def hi ts hd ll)
      have ms: "malloc_site ?i 0 s1 = Inr q"
        using inb by (simp add: malloc_site_def ts hd malloc_site_loop_here)
      have dm: "dom (heap s1) = insert q (dom (heap s))" by (simp add: ok(4))
      have nd: "q \<notin> dom (heap s)" using ok(2) by auto
      show ?thesis
        unfolding eqs using again ms hq mN dm nd by blast
    qed
  next
    case (Some hd)
    have "\<exists>pos s1. lookup_loop M key mf (Some hd) 0 s = Inr ((Some site, pos), s1)"
      using res nn inb Some
      by (auto simp: lookup_or_add_def Let_def split: sum.splits)
    then obtain pos s1 where ll: "lookup_loop M key mf (Some hd) 0 s = Inr ((Some site, pos), s1)"
      by blast
    have "lookup_or_add hash M key mf s = Inr ((Some site, ?i, pos), s1)"
      using nn inb Some ll by (simp add: lookup_or_add_def Let_def)
    with res have eqs: "b = ?i" "p = pos" "s' = s1" by auto
    from lookup_loop_some [OF fresh ll]
    have cs: "(s1 = s \<and> (\<exists>e. heap s site = Some e \<and> matches key mf e)) \<or>
        (\<exists>ps tl e. free_store s = site # ps \<and> heap s site = None \<and> heap s tl = Some e \<and>
          next_entry e = None \<and>
          s1 = s\<lparr>free_store := ps,
               heap := (heap s)(site \<mapsto> ?N, tl \<mapsto> e\<lparr>next_entry := Some site\<rparr>)\<rparr>)"
      and again': "lookup_loop M key mf (Some hd) 0 s1 = Inr ((Some site, pos), s1)"
      and ms': "malloc_site_loop 0 (pos - 0) (Some hd) s1 = Inr (Some site)"
      by blast+
    have tb: "table s1 = table s" using cs by auto
    have ts: "table_size s1 = table_size s" by (simp add: tb table_size_def)
    have hi: "hash_to_index s1 (hash key) = ?i" by (simp add: hash_to_index_def ts)
    have again: "lookup_or_add hash M key mf s1 = Inr ((Some site, ?i, pos), s1)"
      using nn inb by (simp add: lookup_or_add_def Let_def hi ts tb Some again')
    have ms: "malloc_site ?i pos s1 = Inr site"
      using inb ms' by (simp add: malloc_site_def ts tb Some)
    have ent: "\<exists>e. heap s1 site = Some e \<and> matches key mf e"
      using cs
    proof
      assume "s1 = s \<and> (\<exists>e. heap s site = Some e \<and> matches key mf e)"
      then show ?thesis by simp
    next
      assume "\<exists>ps tl e. free_store s = site # ps \<and> heap s site = None \<and> heap s tl = Some e \<and>
          next_entry e = None \<and>
          s1 = s\<lparr>free_store := ps,
               heap := (heap s)(site \<mapsto> ?N, tl \<mapsto> e\<lparr>next_entry := Some site\<rparr>)\<rparr>"
      then obtain ps tl e where a: "heap s site = None" "heap s tl = Some e"
          "s1 = s\<lparr>free_store := ps,
               heap := (heap s)(site \<mapsto> ?N, tl \<mapsto> e\<lparr>next_entry := Some site\<rparr>)\<rparr>"
        by blast
      then have "site \<noteq> tl" by auto
      then have "heap s1 site = Some ?N" by (simp add: a(3))
      then show ?thesis by (simp add: matches_def)
    qed
    have one: "(s1 = s \<and> site \<in> dom (heap s)) \<or>
          (site \<notin> dom (heap s) \<and> dom (heap s1) = insert site (dom (heap s)))"
      using cs
    proof
      assume "s1 = s \<and> (\<exists>e. heap s site = Some e \<and> matches key mf e)"
      then show ?thesis by auto
    next
      assume "\<exists>ps tl e. free_store s = site # ps \<and> heap s site = None \<and> heap s tl = Some e \<and>
          next_entry e = None \<and>
          s1 = s\<lparr>free_store := ps,
               heap := (heap s)(site \<mapsto> ?N, tl \<mapsto> e\<lparr>next_entry := Some site\<rparr>)\<rparr>"
      then obtain ps tl e where a: "heap s site = None" "heap s tl = Some e"
          "s1 = s\<lparr>free_store := ps,
               heap := (heap s)(site \<mapsto> ?N, tl \<mapsto> e\<lparr>next_entry := Some site\<rparr>)\<rparr>"
        by blast
      have "dom (heap s1) = insert site (dom (heap s))"
        using a(2) by (auto simp: a(3))
      moreover have "site \<notin> dom (heap s)" using a(1) by auto
      ultimately show ?thesis by blast
    qed
    show ?thesis
      unfolding eqs by (intro conjI again ms ent one)
  qed
qed


lemma first_match_Nil:
  "first_match key mf h head [] site =
     (head = Some site \<and> (\<exists>e. h site = Some e \<and> matches key mf e))"
  by (auto simp: first_match_def split: option.splits)

lemma first_match_Cons:
  "first_match key mf h head (a # as) site =
     (head = Some a \<and> (\<exists>e. h a = Some e \<and> \<not> matches key mf e \<and>
        first_match key mf h (next_entry e) as site))"
  by (auto simp: first_match_def split: option.splits)

lemma first_match_head: "first_match key mf h head as site \<Longrightarrow> head \<noteq> None"
  by (cases as) (auto simp: first_match_Nil first_match_Cons)

text \<open>An entry that matches is found wherever it stands on the chain, within the bound.\<close>

lemma lookup_loop_finds:
  "first_match key mf (heap s) head as site \<Longrightarrow> pos + length as \<le> M \<Longrightarrow>
   lookup_loop M key mf head pos s = Inr ((Some site, pos + length as), s)"
proof (induction as arbitrary: head pos)
  case Nil
  then show ?case by (auto simp: first_match_Nil lookup_loop_found)
next
  case (Cons a as)
  from Cons.prems(1) obtain e where head: "head = Some a" and e: "heap s a = Some e"
    and nm: "\<not> matches key mf e" and rest: "first_match key mf (heap s) (next_entry e) as site"
    by (auto simp: first_match_Cons)
  have le: "pos \<le> M" using Cons.prems(2) by simp
  have nn: "\<not> (next_entry e = None \<and> pos < M)"
    using first_match_head [OF rest] by simp
  have "lookup_loop M key mf (Some a) pos s = lookup_loop M key mf (next_entry e) (pos + 1) s"
    by (rule lookup_loop_next [OF le e nm nn])
  also have "\<dots> = Inr ((Some site, pos + 1 + length as), s)"
    using Cons.prems(2) by (intro Cons.IH [OF rest]) simp
  finally show ?case unfolding head by simp
qed

lemma first_match_next:
  "first_match key mf h head as site \<Longrightarrow> a \<in> set as \<Longrightarrow>
   \<exists>e. h a = Some e \<and> next_entry e \<noteq> None"
proof (induction as arbitrary: head)
  case Nil
  then show ?case by simp
next
  case (Cons b bs)
  from Cons.prems(1) obtain e where e: "h b = Some e"
    and rest: "first_match key mf h (next_entry e) bs site"
    by (auto simp: first_match_Cons)
  show ?case
  proof (cases "a = b")
    case True
    then show ?thesis using e first_match_head [OF rest] by simp
  next
    case False
    then show ?thesis using Cons.IH [OF rest] Cons.prems(2) by simp
  qed
qed

lemma first_match_next_live:
  "first_match key mf h head as site \<Longrightarrow> a \<in> set as \<Longrightarrow> h a \<noteq> None"
  using first_match_next by fastforce

lemma first_match_next_link:
  "first_match key mf h head as site \<Longrightarrow> a \<in> set as \<Longrightarrow> h a = Some e \<Longrightarrow>
   next_entry e \<noteq> None"
  using first_match_next by fastforce

lemma first_match_live:
  "first_match key mf h head as site \<Longrightarrow> \<exists>e. h site = Some e \<and> matches key mf e"
  by (auto simp: first_match_def split: option.splits)

lemma first_match_cong:
  "first_match key mf h head as site \<Longrightarrow> (\<And>a. a \<in> set as \<Longrightarrow> h' a = h a) \<Longrightarrow>
   h site = Some e \<Longrightarrow> h' site = Some e' \<Longrightarrow> data e' = data e \<Longrightarrow>
   first_match key mf h' head as site"
proof (induction as arbitrary: head)
  case Nil
  then show ?case by (auto simp: first_match_Nil matches_def)
next
  case (Cons b bs)
  from Cons.prems(1) obtain eb where eb: "h b = Some eb" "head = Some b" "\<not> matches key mf eb"
    and rest: "first_match key mf h (next_entry eb) bs site"
    by (auto simp: first_match_Cons)
  have "first_match key mf h' (next_entry eb) bs site"
    using Cons.prems by (intro Cons.IH [OF rest]) auto
  moreover have "h' b = Some eb" using Cons.prems(2) [of b] eb by simp
  ultimately show ?case using eb by (auto simp: first_match_Cons)
qed

lemma lookup_loop_null:
  "fresh_store s \<Longrightarrow> lookup_loop M key mf head pos s = Inr ((None, pos'), s') \<Longrightarrow> s' = s"
proof (induction M key mf head pos s rule: lookup_loop.induct)
  case (1 M key mf head pos s)
  note fresh = "1.prems"(1) and res = "1.prems"(2)
  show ?case
  proof (cases head)
    case None
    then show ?thesis using res by (simp add: lookup_loop_None)
  next
    case (Some h)
    show ?thesis
    proof (cases "pos \<le> M")
      case False
      then show ?thesis using res Some by (simp add: lookup_loop_beyond)
    next
      case le: True
      show ?thesis
      proof (cases "heap s h")
        case None
        then show ?thesis using res Some le by (simp add: lookup_loop_dangling)
      next
        case e: (Some e)
        show ?thesis
        proof (cases "matches key mf e")
          case True
          then show ?thesis using res Some le e by (simp add: lookup_loop_found)
        next
          case nomatch: False
          show ?thesis
          proof (cases "next_entry e = None \<and> pos < M")
            case True
            then have tl: "next_entry e = None" and lt: "pos < M" by auto
            have "\<exists>r s1. try_append key mf h pos s = Inr (r, s1)"
              using res unfolding Some
              by (subst (asm) lookup_loop.simps) (use le e nomatch True in
                  \<open>auto simp: matches_def split: sum.splits option.splits prod.splits\<close>)
            then obtain r s1 where ta: "try_append key mf h pos s = Inr (r, s1)" by blast
            from try_append_cases [OF e tl fresh ta]
            consider (oom) "r = Some (None, pos)" "s1 = s"
              | (ok) p where "r = Some (Some p, pos + 1)"
              by blast
            then show ?thesis
            proof cases
              case oom
              have "lookup_loop M key mf head pos s = Inr ((None, pos), s1)"
                unfolding Some using lookup_loop_append [OF le e nomatch tl lt] ta oom by simp
              with res oom show ?thesis by simp
            next
              case ok
              have "lookup_loop M key mf head pos s = Inr ((Some p, pos + 1), s1)"
                unfolding Some using lookup_loop_append [OF le e nomatch tl lt] ta ok by simp
              with res show ?thesis by simp
            qed
          next
            case False
            have step: "lookup_loop M key mf head pos s =
                lookup_loop M key mf (next_entry e) (pos + 1) s"
              unfolding Some by (rule lookup_loop_next [OF le e nomatch False])
            with res have rec: "lookup_loop M key mf (next_entry e) (pos + 1) s =
                Inr ((None, pos'), s')"
              by simp
            have nm: "\<not> (flags (data e) = mf \<and> call_stack (data e) = key)"
              using nomatch by (simp add: matches_def)
            have cond: "(if next_entry e = None \<and> pos < M
                then try_append key mf h pos s else Inr (None, s)) = Inr (None, s)"
              by (rule if_not_P [OF False])
            show ?thesis
              by (rule "1.IH" [OF Some le e nm cond refl refl e fresh rec])
          qed
        qed
      qed
    qed
  qed
qed

lemma lookup_loop_first_match:
  "fresh_store s \<Longrightarrow> lookup_loop M key mf head pos s = Inr ((Some site, pos'), s') \<Longrightarrow>
   \<exists>as. first_match key mf (heap s') head as site \<and> pos' = pos + length as \<and> pos' \<le> M"
proof (induction M key mf head pos s rule: lookup_loop.induct)
  case (1 M key mf head pos s)
  note fresh = "1.prems"(1) and res = "1.prems"(2)
  let ?N = "\<lparr>data = \<lparr>call_stack = key, flags = mf\<rparr>, next_entry = None\<rparr>"
  from res obtain h where head: "head = Some h"
    by (cases head) (auto simp: lookup_loop_None)
  from res head have le: "pos \<le> M"
    by (cases "pos \<le> M") (auto simp: lookup_loop_beyond)
  from res head le obtain e where e: "heap s h = Some e"
    by (cases "heap s h") (auto simp: lookup_loop_dangling)
  show ?case
  proof (cases "matches key mf e")
    case True
    have "lookup_loop M key mf head pos s = Inr ((Some h, pos), s)"
      unfolding head by (rule lookup_loop_found [OF le e True])
    with res have eqs: "site = h" "pos' = pos" "s' = s" by auto
    have "first_match key mf (heap s) (Some h) [] h"
      using e True by (simp add: first_match_Nil)
    then show ?thesis unfolding eqs head using le by (intro exI [of _ "[]"]) simp
  next
    case nomatch: False
    show ?thesis
    proof (cases "next_entry e = None \<and> pos < M")
      case True
      then have tl: "next_entry e = None" and lt: "pos < M" by auto
      have "\<exists>r s1. try_append key mf h pos s = Inr (r, s1)"
        using res unfolding head
        by (subst (asm) lookup_loop.simps) (use le e nomatch True in
            \<open>auto simp: matches_def split: sum.splits option.splits prod.splits\<close>)
      then obtain r s1 where ta: "try_append key mf h pos s = Inr (r, s1)" by blast
      from try_append_cases [OF e tl fresh ta]
      consider (oom) "r = Some (None, pos)" "s1 = s"
        | (ok) p ps where "free_store s = p # ps" "heap s p = None" "r = Some (Some p, pos + 1)"
           "s1 = s\<lparr>free_store := ps, heap := (heap s)(p \<mapsto> ?N, h \<mapsto> e\<lparr>next_entry := Some p\<rparr>)\<rparr>"
        by blast
      then show ?thesis
      proof cases
        case oom
        have "lookup_loop M key mf head pos s = Inr ((None, pos), s1)"
          unfolding head using lookup_loop_append [OF le e nomatch tl lt] ta oom by simp
        with res show ?thesis by simp
      next
        case ok
        have r1: "lookup_loop M key mf head pos s = Inr ((Some p, pos + 1), s1)"
          unfolding head using lookup_loop_append [OF le e nomatch tl lt] ta ok(3) by simp
        with res have eqs: "site = p" "pos' = pos + 1" "s' = s1" by auto
        have ph: "p \<noteq> h" using ok(2) e by auto
        have hs1: "heap s1 h = Some (e\<lparr>next_entry := Some p\<rparr>)"
          by (simp add: ok(4))
        have ps1: "heap s1 p = Some ?N"
          using ph by (simp add: ok(4))
        have nm1: "\<not> matches key mf (e\<lparr>next_entry := Some p\<rparr>)"
          using nomatch by (simp add: matches_def)
        have mN: "matches key mf ?N" by (simp add: matches_def)
        have "first_match key mf (heap s1) (Some p) [] p"
          using ps1 mN by (simp add: first_match_Nil)
        then have "first_match key mf (heap s1) (Some h) [h] p"
          using hs1 nm1 by (simp add: first_match_Cons)
        then show ?thesis unfolding eqs head using lt by (intro exI [of _ "[h]"]) simp
      qed
    next
      case False
      have step: "lookup_loop M key mf head pos s = lookup_loop M key mf (next_entry e) (pos + 1) s"
        unfolding head by (rule lookup_loop_next [OF le e nomatch False])
      with res have rec: "lookup_loop M key mf (next_entry e) (pos + 1) s = Inr ((Some site, pos'), s')"
        by simp
      have nm: "\<not> (flags (data e) = mf \<and> call_stack (data e) = key)"
        using nomatch by (simp add: matches_def)
      have cond: "(if next_entry e = None \<and> pos < M then try_append key mf h pos s else Inr (None, s))
          = Inr (None, s)"
        by (rule if_not_P [OF False])
      from "1.IH" [OF head le e nm cond refl refl e fresh rec]
      obtain as where as: "first_match key mf (heap s') (next_entry e) as site"
          "pos' = pos + 1 + length as" "pos' \<le> M"
        by auto
      have nxt: "next_entry e \<noteq> None"
      proof
        assume "next_entry e = None"
        then show False using rec by (simp add: lookup_loop_None)
      qed
      have hs': "heap s' h = Some e"
        using lookup_loop_some [OF fresh rec] e nxt by auto
      have "first_match key mf (heap s') (Some h) (h # as) site"
        using hs' nomatch as(1) by (simp add: first_match_Cons)
      then show ?thesis unfolding head using as(2,3) by (intro exI [of _ "h # as"]) simp
    qed
  qed
qed

text \<open>
  What a call that does not fail leaves: the state it was given, or that state with one
  entry more, installed as the head of the key's bucket, which was empty, or appended to
  the tail of a chain.
\<close>

lemma lookup_or_add_effect:
  assumes fresh: "fresh_store s"
    and res: "lookup_or_add hash M key mf s = Inr ((r, b, p), s')"
  shows "s' = s \<or>
    (\<exists>q ps. free_store s = q # ps \<and> heap s q = None \<and> b < length (table s) \<and>
       table s ! b = None \<and>
       s' = s\<lparr>free_store := ps,
              heap := (heap s)(q \<mapsto> \<lparr>data = \<lparr>call_stack = key, flags = mf\<rparr>, next_entry = None\<rparr>),
              table := (table s)[b := Some q]\<rparr>) \<or>
    (\<exists>q ps tl e. free_store s = q # ps \<and> heap s q = None \<and> heap s tl = Some e \<and>
       next_entry e = None \<and>
       s' = s\<lparr>free_store := ps,
              heap := (heap s)(q \<mapsto> \<lparr>data = \<lparr>call_stack = key, flags = mf\<rparr>, next_entry = None\<rparr>,
                               tl \<mapsto> e\<lparr>next_entry := Some q\<rparr>)\<rparr>)"
proof -
  let ?N = "\<lparr>data = \<lparr>call_stack = key, flags = mf\<rparr>, next_entry = None\<rparr>"
  let ?i = "hash_to_index s (hash key)"
  have nn: "mf \<noteq> mtNone"
    using res by (auto simp: lookup_or_add_def)
  have inb: "?i < table_size s"
    using res nn by (auto simp: lookup_or_add_def Let_def split: if_splits)
  show ?thesis
  proof (cases "table s ! ?i")
    case None
    have "\<exists>x s1. first_entry key mf ?i s = Inr (x, s1)"
      using res nn inb None
      by (auto simp: lookup_or_add_def Let_def split: sum.splits)
    then obtain x s1 where fe: "first_entry key mf ?i s = Inr (x, s1)" by blast
    from first_entry_empty_bucket [OF None fresh fe]
    consider (oom) "x = Some None" "s1 = s"
      | (ok) q qs where "free_store s = q # qs" "heap s q = None" "x = Some (Some q)"
          "s1 = s\<lparr>free_store := qs, heap := (heap s)(q \<mapsto> ?N),
                  table := (table s)[?i := Some q]\<rparr>"
      by blast
    then show ?thesis
    proof cases
      case oom
      then have "s' = s" using res nn inb None fe by (simp add: lookup_or_add_def Let_def)
      then show ?thesis by simp
    next
      case ok
      have "lookup_or_add hash M key mf s = Inr ((Some q, ?i, 0), s1)"
        using nn inb None fe ok(3) by (simp add: lookup_or_add_def Let_def)
      with res have eqs: "b = ?i" "s' = s1" by auto
      have "\<exists>q ps. free_store s = q # ps \<and> heap s q = None \<and> b < length (table s) \<and>
         table s ! b = None \<and>
         s' = s\<lparr>free_store := ps, heap := (heap s)(q \<mapsto> ?N),
                table := (table s)[b := Some q]\<rparr>"
        unfolding eqs using ok(1,2,4) inb None by (auto simp: table_size_def)
      then show ?thesis by (intro disjI2 disjI1)
    qed
  next
    case (Some hd)
    have "\<exists>x pos s1. lookup_loop M key mf (Some hd) 0 s = Inr ((x, pos), s1)"
      using res nn inb Some
      by (auto simp: lookup_or_add_def Let_def split: sum.splits)
    then obtain x pos s1 where ll: "lookup_loop M key mf (Some hd) 0 s = Inr ((x, pos), s1)"
      by blast
    have "lookup_or_add hash M key mf s = Inr ((x, ?i, pos), s1)"
      using nn inb Some ll by (simp add: lookup_or_add_def Let_def)
    with res have eqs: "r = x" "s' = s1" by auto
    show ?thesis
    proof (cases x)
      case None
      then have "s1 = s" using lookup_loop_null [OF fresh] ll by blast
      then show ?thesis unfolding eqs by simp
    next
      case (Some site)
      from lookup_loop_some [OF fresh ll [unfolded Some]]
      have "(s1 = s \<and> (\<exists>e. heap s site = Some e \<and> matches key mf e)) \<or>
        (\<exists>ps tl e. free_store s = site # ps \<and> heap s site = None \<and> heap s tl = Some e \<and>
          next_entry e = None \<and>
          s1 = s\<lparr>free_store := ps,
               heap := (heap s)(site \<mapsto> ?N, tl \<mapsto> e\<lparr>next_entry := Some site\<rparr>)\<rparr>)"
        by blast
      then show ?thesis unfolding eqs by blast
    qed
  qed
qed

lemma lookup_or_add_keeps:
  assumes fresh: "fresh_store t" and dist: "distinct (free_store t)"
    and fm: "first_match key mf (heap t) (table t ! b) as site"
    and res: "lookup_or_add hash M k f t = Inr (r, t')"
  shows "fresh_store t' \<and> distinct (free_store t') \<and> length (table t') = length (table t) \<and>
    first_match key mf (heap t') (table t' ! b) as site"
proof -
  obtain x b2 p2 where r: "r = (x, b2, p2)" by (cases r) auto
  let ?N = "\<lparr>data = \<lparr>call_stack = k, flags = f\<rparr>, next_entry = None\<rparr>"
  obtain es where es: "heap t site = Some es" "matches key mf es"
    using first_match_live [OF fm] by blast
  from lookup_or_add_effect [OF fresh res [unfolded r]]
  consider (same) "t' = t"
    | (head) q ps where "free_store t = q # ps" "heap t q = None" "b2 < length (table t)"
        "table t ! b2 = None"
        "t' = t\<lparr>free_store := ps, heap := (heap t)(q \<mapsto> ?N),
               table := (table t)[b2 := Some q]\<rparr>"
    | (tail) q ps tl e where "free_store t = q # ps" "heap t q = None" "heap t tl = Some e"
        "next_entry e = None"
        "t' = t\<lparr>free_store := ps,
               heap := (heap t)(q \<mapsto> ?N, tl \<mapsto> e\<lparr>next_entry := Some q\<rparr>)\<rparr>"
    by blast
  then show ?thesis
  proof cases
    case same
    then show ?thesis using fresh dist fm by simp
  next
    case head
    have nb: "b2 \<noteq> b" using first_match_head [OF fm] head(4) by auto
    have tb: "table t' ! b = table t ! b" using nb by (simp add: head(5))
    have keep: "heap t' a = heap t a" if "a \<in> set as" for a
    proof -
      have "a \<noteq> q" using first_match_next_live [OF fm that] head(2) by auto
      then show ?thesis by (simp add: head(5))
    qed
    have qs: "q \<noteq> site" using es head(2) by auto
    have es': "heap t' site = Some es" using qs es(1) by (simp add: head(5))
    have "first_match key mf (heap t') (table t ! b) as site"
      by (rule first_match_cong [OF fm keep es(1) es' refl])
    moreover have "fresh_store t'"
      using fresh dist head(1) by (auto simp: fresh_store_def head(5) list_all_iff)
    moreover have "distinct (free_store t')" using dist head(1) by (simp add: head(5))
    moreover have "length (table t') = length (table t)" by (simp add: head(5))
    ultimately show ?thesis using tb by simp
  next
    case tail
    have tb: "table t' ! b = table t ! b" by (simp add: tail(5))
    have keep: "heap t' a = heap t a" if "a \<in> set as" for a
    proof -
      have "a \<noteq> q" using first_match_next_live [OF fm that] tail(2) by auto
      moreover have "a \<noteq> tl" using first_match_next_link [OF fm that] tail(3,4) by auto
      ultimately show ?thesis by (simp add: tail(5))
    qed
    have qs: "q \<noteq> site" using es tail(2) by auto
    have "\<exists>e'. heap t' site = Some e' \<and> data e' = data es"
      using qs es(1) tail(3) by (auto simp: tail(5))
    then obtain e' where e': "heap t' site = Some e'" "data e' = data es" by blast
    have "first_match key mf (heap t') (table t ! b) as site"
      by (rule first_match_cong [OF fm keep es(1) e'])
    moreover have "fresh_store t'"
      using fresh dist tail(1,3) by (auto simp: fresh_store_def tail(5) list_all_iff)
    moreover have "distinct (free_store t')" using dist tail(1) by (simp add: tail(5))
    moreover have "length (table t') = length (table t)" by (simp add: tail(5))
    ultimately show ?thesis using tb by simp
  qed
qed

lemma lookup_or_add_calls_keep:
  "lookup_or_add_calls hash M calls t = Inr t' \<Longrightarrow> fresh_store t \<Longrightarrow>
   distinct (free_store t) \<Longrightarrow> first_match key mf (heap t) (table t ! b) as site \<Longrightarrow>
   length (table t') = length (table t) \<and> first_match key mf (heap t') (table t' ! b) as site"
proof (induction calls arbitrary: t)
  case Nil
  then show ?case by simp
next
  case (Cons c calls)
  obtain k f where c: "c = (k, f)" by (cases c) auto
  from Cons.prems(1) obtain r t1 where one: "lookup_or_add hash M k f t = Inr (r, t1)"
    and more: "lookup_or_add_calls hash M calls t1 = Inr t'"
    unfolding c by (auto split: sum.splits)
  from lookup_or_add_keeps [OF Cons.prems(2,3,4) one]
  have k1: "fresh_store t1" "distinct (free_store t1)" "length (table t1) = length (table t)"
      "first_match key mf (heap t1) (table t1 ! b) as site"
    by blast+
  from Cons.IH [OF more k1(1,2,4)] k1(3) show ?case by simp
qed

text \<open>
  An entry that matches and has no matching entry before it on the chain of its bucket,
  within the bound, is what \<open>lookup_or_add\<close> returns, and nothing changes.
\<close>

lemma lookup_or_add_finds:
  assumes "mf \<noteq> mtNone" and "table s \<noteq> []"
    and "first_match key mf (heap s) (table s ! hash_to_index s (hash key)) as site"
    and "length as \<le> M"
  shows "lookup_or_add hash M key mf s =
    Inr ((Some site, hash_to_index s (hash key), length as), s)"
proof -
  let ?i = "hash_to_index s (hash key)"
  have inb: "?i < table_size s"
    using assms(2) by (simp add: hash_to_index_def table_size_def)
  have ne: "table s ! ?i \<noteq> None" by (rule first_match_head [OF assms(3)])
  have "lookup_loop M key mf (table s ! ?i) 0 s = Inr ((Some site, 0 + length as), s)"
    using assms(4) by (intro lookup_loop_finds [OF assms(3)]) simp
  then show ?thesis
    using assms(1) inb ne by (auto simp: lookup_or_add_def Let_def)
qed

lemma lookup_or_add_first_match:
  assumes fresh: "fresh_store s"
    and res: "lookup_or_add hash M key mf s = Inr ((Some site, b, p), s')"
  shows "\<exists>as. first_match key mf (heap s') (table s' ! b) as site \<and> length as = p \<and> p \<le> M"
proof -
  let ?N = "\<lparr>data = \<lparr>call_stack = key, flags = mf\<rparr>, next_entry = None\<rparr>"
  let ?i = "hash_to_index s (hash key)"
  have nn: "mf \<noteq> mtNone"
    using res by (auto simp: lookup_or_add_def)
  have inb: "?i < table_size s"
    using res nn by (auto simp: lookup_or_add_def Let_def split: if_splits)
  show ?thesis
  proof (cases "table s ! ?i")
    case None
    have "\<exists>x s1. first_entry key mf ?i s = Inr (x, s1)"
      using res nn inb None
      by (auto simp: lookup_or_add_def Let_def split: sum.splits)
    then obtain x s1 where fe: "first_entry key mf ?i s = Inr (x, s1)" by blast
    from first_entry_empty_bucket [OF None fresh fe]
    consider (oom) "x = Some None" "s1 = s"
      | (ok) q qs where "free_store s = q # qs" "heap s q = None" "x = Some (Some q)"
          "s1 = s\<lparr>free_store := qs, heap := (heap s)(q \<mapsto> ?N),
                  table := (table s)[?i := Some q]\<rparr>"
      by blast
    then show ?thesis
    proof cases
      case oom
      then show ?thesis using res nn inb None fe by (simp add: lookup_or_add_def Let_def)
    next
      case ok
      have "lookup_or_add hash M key mf s = Inr ((Some q, ?i, 0), s1)"
        using nn inb None fe ok(3) by (simp add: lookup_or_add_def Let_def)
      with res have eqs: "site = q" "b = ?i" "p = 0" "s' = s1" by auto
      have "first_match key mf (heap s1) (table s1 ! ?i) [] q"
        using inb by (simp add: first_match_Nil ok(4) table_size_def matches_def)
      then show ?thesis unfolding eqs by (intro exI [of _ "[]"]) simp
    qed
  next
    case (Some hd)
    have "\<exists>pos s1. lookup_loop M key mf (Some hd) 0 s = Inr ((Some site, pos), s1)"
      using res nn inb Some
      by (auto simp: lookup_or_add_def Let_def split: sum.splits)
    then obtain pos s1 where ll: "lookup_loop M key mf (Some hd) 0 s = Inr ((Some site, pos), s1)"
      by blast
    have "lookup_or_add hash M key mf s = Inr ((Some site, ?i, pos), s1)"
      using nn inb Some ll by (simp add: lookup_or_add_def Let_def)
    with res have eqs: "b = ?i" "p = pos" "s' = s1" by auto
    have tb: "table s1 = table s" using lookup_loop_some [OF fresh ll] by auto
    from lookup_loop_first_match [OF fresh ll]
    obtain as where "first_match key mf (heap s1) (Some hd) as site" "pos = 0 + length as" "pos \<le> M"
      by blast
    then show ?thesis unfolding eqs tb Some by (intro exI [of _ as]) simp
  qed
qed

text \<open>
  C1. The allocator hands out addresses that are not live, each once. When a call of
  \<open>lookup_or_add\<close> with a key and a memory category other than \<open>mtNone\<close> returns a
  site, then after any sequence of further calls, with the same or with other keys and
  categories, a call with that key and category returns the same site, with the same
  bucket and position, and leaves the state as it is: no second entry is created for the
  pair. The entry returned holds the key and the category, and the call that returned it
  first either found it, changing nothing, or created exactly this one entry. In any
  state at all, an entry that is the first match on the chain of the key's bucket, within
  the bound, is what the call returns, and the call changes nothing.
\<close>

theorem lookup_or_add_idempotent:
  assumes "fresh_store s" and "distinct (free_store s)" and "mflags \<noteq> mtNone"
    and "lookup_or_add hash MAX_BUCKET_LENGTH key mflags s = Inr ((Some site, b, p), s')"
    and "lookup_or_add_calls hash MAX_BUCKET_LENGTH calls s' = Inr t"
  shows "lookup_or_add hash MAX_BUCKET_LENGTH key mflags t = Inr ((Some site, b, p), t) \<and>
         (\<exists>e. heap t site = Some e \<and> matches key mflags e) \<and>
         ((s' = s \<and> site \<in> dom (heap s)) \<or>
          (site \<notin> dom (heap s) \<and> dom (heap s') = insert site (dom (heap s)))) \<and>
         (\<forall>u as site'. table u \<noteq> [] \<and> length as \<le> MAX_BUCKET_LENGTH \<and>
            first_match key mflags (heap u) (table u ! hash_to_index u (hash key)) as site' \<longrightarrow>
            lookup_or_add hash MAX_BUCKET_LENGTH key mflags u =
              Inr ((Some site', hash_to_index u (hash key), length as), u))"
proof -
  note one = lookup_or_add_some [OF assms(1,4)]
  obtain as where fm: "first_match key mflags (heap s') (table s' ! b) as site"
    and len: "length as = p" "p \<le> MAX_BUCKET_LENGTH"
    using lookup_or_add_first_match [OF assms(1,4)] by blast
  have b: "b = hash_to_index s (hash key)" and inb: "hash_to_index s (hash key) < table_size s"
    using assms(3,4)
    by (auto simp: lookup_or_add_def Let_def split: if_splits sum.splits option.splits prod.splits)
  have fm0: "first_match key mflags (heap s') (table s' ! b) as site" by (rule fm)
  have k0: "fresh_store s'" "distinct (free_store s')" "length (table s') = length (table s)"
  proof -
    from lookup_or_add_effect [OF assms(1,4)]
    consider (same) "s' = s"
      | (head) q ps where "free_store s = q # ps"
          "s' = s\<lparr>free_store := ps,
             heap := (heap s)(q \<mapsto> \<lparr>data = \<lparr>call_stack = key, flags = mflags\<rparr>, next_entry = None\<rparr>),
             table := (table s)[b := Some q]\<rparr>"
      | (tail) q ps tl e where "free_store s = q # ps" "heap s tl = Some e"
          "s' = s\<lparr>free_store := ps,
             heap := (heap s)(q \<mapsto> \<lparr>data = \<lparr>call_stack = key, flags = mflags\<rparr>, next_entry = None\<rparr>,
                              tl \<mapsto> e\<lparr>next_entry := Some q\<rparr>)\<rparr>"
      by blast
    then have "fresh_store s' \<and> distinct (free_store s') \<and> length (table s') = length (table s)"
    proof cases
      case same
      then show ?thesis using assms(1,2) by simp
    next
      case head
      then show ?thesis
        using assms(1,2) by (auto simp: fresh_store_def list_all_iff)
    next
      case tail
      then show ?thesis
        using assms(1,2) by (auto simp: fresh_store_def list_all_iff)
    qed
    then show "fresh_store s'" "distinct (free_store s')" "length (table s') = length (table s)"
      by blast+
  qed
  from lookup_or_add_calls_keep [OF assms(5) k0(1,2) fm0]
  have kt: "length (table t) = length (table s')"
    "first_match key mflags (heap t) (table t ! b) as site"
    by blast+
  have bt: "hash_to_index t (hash key) = b"
    using kt(1) k0(3) by (simp add: b hash_to_index_def table_size_def)
  have ne: "table t \<noteq> []"
    using inb kt(1) k0(3) by (auto simp: table_size_def)
  have again: "lookup_or_add hash MAX_BUCKET_LENGTH key mflags t = Inr ((Some site, b, p), t)"
    using lookup_or_add_finds [where hash = hash and key = key and as = as and site = site
        and M = MAX_BUCKET_LENGTH, OF assms(3) ne] kt(2) len
    by (simp add: bt)
  have ent: "\<exists>e. heap t site = Some e \<and> matches key mflags e"
    by (rule first_match_live [OF kt(2)])
  have first: "(s' = s \<and> site \<in> dom (heap s)) \<or>
          (site \<notin> dom (heap s) \<and> dom (heap s') = insert site (dom (heap s)))"
    using one by blast
  have gen: "\<forall>u as site'. table u \<noteq> [] \<and> length as \<le> MAX_BUCKET_LENGTH \<and>
            first_match key mflags (heap u) (table u ! hash_to_index u (hash key)) as site' \<longrightarrow>
            lookup_or_add hash MAX_BUCKET_LENGTH key mflags u =
              Inr ((Some site', hash_to_index u (hash key), length as), u)"
    using lookup_or_add_finds [OF assms(3)] by blast
  show ?thesis by (intro conjI again ent first gen)
qed

theorem lookup_or_add_idempotent_witness:
  "fresh_store
     \<lparr>table = [None, Some 10],
      heap = [10 \<mapsto> \<lparr>data = \<lparr>call_stack = [7], flags = mtNMT\<rparr>, next_entry = None\<rparr>],
      hash_entry_allocation_stack = Some [7], hash_entry_allocation_site = Some 10,
      free_store = [20, 21, 22]\<rparr> \<and>
   distinct [20 :: nat, 21, 22] \<and>
   mtOther 0 \<noteq> mtNone \<and>
   lookup_or_add sum_list 2 [3] (mtOther 0)
     \<lparr>table = [None, Some 10],
      heap = [10 \<mapsto> \<lparr>data = \<lparr>call_stack = [7], flags = mtNMT\<rparr>, next_entry = None\<rparr>],
      hash_entry_allocation_stack = Some [7], hash_entry_allocation_site = Some 10,
      free_store = [20, 21, 22]\<rparr> =
     Inr ((Some 20, 1, 1),
       \<lparr>table = [None, Some 10],
        heap = [10 \<mapsto> \<lparr>data = \<lparr>call_stack = [7], flags = mtNMT\<rparr>, next_entry = None\<rparr>,
                20 \<mapsto> \<lparr>data = \<lparr>call_stack = [3], flags = mtOther 0\<rparr>, next_entry = None\<rparr>,
                10 \<mapsto> \<lparr>data = \<lparr>call_stack = [7], flags = mtNMT\<rparr>, next_entry = Some 20\<rparr>],
        hash_entry_allocation_stack = Some [7], hash_entry_allocation_site = Some 10,
        free_store = [21, 22]\<rparr>) \<and>
   lookup_or_add_calls sum_list 2 [([5], mtOther 1), ([3], mtOther 0), ([2], mtOther 0)]
       \<lparr>table = [None, Some 10],
        heap = [10 \<mapsto> \<lparr>data = \<lparr>call_stack = [7], flags = mtNMT\<rparr>, next_entry = None\<rparr>,
                20 \<mapsto> \<lparr>data = \<lparr>call_stack = [3], flags = mtOther 0\<rparr>, next_entry = None\<rparr>,
                10 \<mapsto> \<lparr>data = \<lparr>call_stack = [7], flags = mtNMT\<rparr>, next_entry = Some 20\<rparr>],
        hash_entry_allocation_stack = Some [7], hash_entry_allocation_site = Some 10,
        free_store = [21, 22]\<rparr> =
     Inr \<lparr>table = [Some 22, Some 10],
        heap = [10 \<mapsto> \<lparr>data = \<lparr>call_stack = [7], flags = mtNMT\<rparr>, next_entry = None\<rparr>,
                20 \<mapsto> \<lparr>data = \<lparr>call_stack = [3], flags = mtOther 0\<rparr>, next_entry = None\<rparr>,
                10 \<mapsto> \<lparr>data = \<lparr>call_stack = [7], flags = mtNMT\<rparr>, next_entry = Some 20\<rparr>,
                21 \<mapsto> \<lparr>data = \<lparr>call_stack = [5], flags = mtOther 1\<rparr>, next_entry = None\<rparr>,
                20 \<mapsto> \<lparr>data = \<lparr>call_stack = [3], flags = mtOther 0\<rparr>, next_entry = Some 21\<rparr>,
                22 \<mapsto> \<lparr>data = \<lparr>call_stack = [2], flags = mtOther 0\<rparr>, next_entry = None\<rparr>],
        hash_entry_allocation_stack = Some [7], hash_entry_allocation_site = Some 10,
        free_store = []\<rparr> \<and>
   lookup_or_add sum_list 2 [3] (mtOther 0)
     \<lparr>table = [Some 22, Some 10],
        heap = [10 \<mapsto> \<lparr>data = \<lparr>call_stack = [7], flags = mtNMT\<rparr>, next_entry = None\<rparr>,
                20 \<mapsto> \<lparr>data = \<lparr>call_stack = [3], flags = mtOther 0\<rparr>, next_entry = None\<rparr>,
                10 \<mapsto> \<lparr>data = \<lparr>call_stack = [7], flags = mtNMT\<rparr>, next_entry = Some 20\<rparr>,
                21 \<mapsto> \<lparr>data = \<lparr>call_stack = [5], flags = mtOther 1\<rparr>, next_entry = None\<rparr>,
                20 \<mapsto> \<lparr>data = \<lparr>call_stack = [3], flags = mtOther 0\<rparr>, next_entry = Some 21\<rparr>,
                22 \<mapsto> \<lparr>data = \<lparr>call_stack = [2], flags = mtOther 0\<rparr>, next_entry = None\<rparr>],
        hash_entry_allocation_stack = Some [7], hash_entry_allocation_site = Some 10,
        free_store = []\<rparr> =
     Inr ((Some 20, 1, 1),
      \<lparr>table = [Some 22, Some 10],
        heap = [10 \<mapsto> \<lparr>data = \<lparr>call_stack = [7], flags = mtNMT\<rparr>, next_entry = None\<rparr>,
                20 \<mapsto> \<lparr>data = \<lparr>call_stack = [3], flags = mtOther 0\<rparr>, next_entry = None\<rparr>,
                10 \<mapsto> \<lparr>data = \<lparr>call_stack = [7], flags = mtNMT\<rparr>, next_entry = Some 20\<rparr>,
                21 \<mapsto> \<lparr>data = \<lparr>call_stack = [5], flags = mtOther 1\<rparr>, next_entry = None\<rparr>,
                20 \<mapsto> \<lparr>data = \<lparr>call_stack = [3], flags = mtOther 0\<rparr>, next_entry = Some 21\<rparr>,
                22 \<mapsto> \<lparr>data = \<lparr>call_stack = [2], flags = mtOther 0\<rparr>, next_entry = None\<rparr>],
        hash_entry_allocation_stack = Some [7], hash_entry_allocation_site = Some 10,
        free_store = []\<rparr>)"
proof -
  let ?s = "\<lparr>table = [None, Some 10],
      heap = [10 \<mapsto> \<lparr>data = \<lparr>call_stack = [7], flags = mtNMT\<rparr>, next_entry = None\<rparr>],
      hash_entry_allocation_stack = Some [7], hash_entry_allocation_site = Some 10,
      free_store = [20, 21, 22]\<rparr>"
  let ?s' = "\<lparr>table = [None, Some 10],
        heap = [10 \<mapsto> \<lparr>data = \<lparr>call_stack = [7], flags = mtNMT\<rparr>, next_entry = None\<rparr>,
                20 \<mapsto> \<lparr>data = \<lparr>call_stack = [3], flags = mtOther 0\<rparr>, next_entry = None\<rparr>,
                10 \<mapsto> \<lparr>data = \<lparr>call_stack = [7], flags = mtNMT\<rparr>, next_entry = Some 20\<rparr>],
        hash_entry_allocation_stack = Some [7], hash_entry_allocation_site = Some 10,
        free_store = [21, 22]\<rparr>"
  let ?t = "\<lparr>table = [Some 22, Some 10],
        heap = [10 \<mapsto> \<lparr>data = \<lparr>call_stack = [7], flags = mtNMT\<rparr>, next_entry = None\<rparr>,
                20 \<mapsto> \<lparr>data = \<lparr>call_stack = [3], flags = mtOther 0\<rparr>, next_entry = None\<rparr>,
                10 \<mapsto> \<lparr>data = \<lparr>call_stack = [7], flags = mtNMT\<rparr>, next_entry = Some 20\<rparr>,
                21 \<mapsto> \<lparr>data = \<lparr>call_stack = [5], flags = mtOther 1\<rparr>, next_entry = None\<rparr>,
                20 \<mapsto> \<lparr>data = \<lparr>call_stack = [3], flags = mtOther 0\<rparr>, next_entry = Some 21\<rparr>,
                22 \<mapsto> \<lparr>data = \<lparr>call_stack = [2], flags = mtOther 0\<rparr>, next_entry = None\<rparr>],
        hash_entry_allocation_stack = Some [7], hash_entry_allocation_site = Some 10,
        free_store = []\<rparr>"
  have f: "fresh_store ?s" by (simp add: fresh_store_def)
  have d: "distinct (free_store ?s)" by simp
  have n: "mtOther 0 \<noteq> mtNone" by simp
  have r: "lookup_or_add sum_list 2 [3] (mtOther 0) ?s = Inr ((Some 20, 1, 1), ?s')"
    by (simp add: lookup_or_add_def hash_to_index_def table_size_def lookup_loop.simps
        try_append_def new_entry_def AllocateHeap_def atomic_insert_def Let_def
        numeral_2_eq_2 [symmetric])
  have c: "lookup_or_add_calls sum_list 2 [([5], mtOther 1), ([3], mtOther 0), ([2], mtOther 0)] ?s'
      = Inr ?t"
    by (simp add: lookup_or_add_def hash_to_index_def table_size_def lookup_loop.simps
        try_append_def new_entry_def AllocateHeap_def atomic_insert_def Let_def
        first_entry_def replace_if_null_def numeral_2_eq_2 [symmetric])
  show ?thesis
    using f d n r c lookup_or_add_idempotent [OF f d n r c, THEN conjunct1] by simp
qed

text \<open>
  C10. When the allocator hands out fresh addresses and \<open>lookup_or_add\<close> returns a site
  with the bucket index \<open>b\<close> and the position \<open>p\<close>, then \<open>malloc_site b p\<close> on the
  state it left returns that site.
\<close>

theorem lookup_or_add_round_trip:
  assumes "fresh_store s"
    and "lookup_or_add hash MAX_BUCKET_LENGTH key mflags s = Inr ((Some site, b, p), s')"
  shows "malloc_site b p s' = Inr site"
  using lookup_or_add_some [OF assms] by blast

theorem lookup_or_add_round_trip_witness:
  "fresh_store
     \<lparr>table = [Some 10, Some 11],
      heap = [10 \<mapsto> \<lparr>data = \<lparr>call_stack = [4], flags = mtNMT\<rparr>, next_entry = Some 12\<rparr>,
              11 \<mapsto> \<lparr>data = \<lparr>call_stack = [5], flags = mtOther 1\<rparr>, next_entry = None\<rparr>,
              12 \<mapsto> \<lparr>data = \<lparr>call_stack = [6], flags = mtOther 1\<rparr>, next_entry = None\<rparr>],
      hash_entry_allocation_stack = Some [4], hash_entry_allocation_site = Some 10,
      free_store = [30]\<rparr> \<and>
   lookup_or_add sum_list 5 [2] (mtOther 1)
     \<lparr>table = [Some 10, Some 11],
      heap = [10 \<mapsto> \<lparr>data = \<lparr>call_stack = [4], flags = mtNMT\<rparr>, next_entry = Some 12\<rparr>,
              11 \<mapsto> \<lparr>data = \<lparr>call_stack = [5], flags = mtOther 1\<rparr>, next_entry = None\<rparr>,
              12 \<mapsto> \<lparr>data = \<lparr>call_stack = [6], flags = mtOther 1\<rparr>, next_entry = None\<rparr>],
      hash_entry_allocation_stack = Some [4], hash_entry_allocation_site = Some 10,
      free_store = [30]\<rparr> =
     Inr ((Some 30, 0, 2),
       \<lparr>table = [Some 10, Some 11],
        heap = [10 \<mapsto> \<lparr>data = \<lparr>call_stack = [4], flags = mtNMT\<rparr>, next_entry = Some 12\<rparr>,
              11 \<mapsto> \<lparr>data = \<lparr>call_stack = [5], flags = mtOther 1\<rparr>, next_entry = None\<rparr>,
              12 \<mapsto> \<lparr>data = \<lparr>call_stack = [6], flags = mtOther 1\<rparr>, next_entry = None\<rparr>,
              30 \<mapsto> \<lparr>data = \<lparr>call_stack = [2], flags = mtOther 1\<rparr>, next_entry = None\<rparr>,
              12 \<mapsto> \<lparr>data = \<lparr>call_stack = [6], flags = mtOther 1\<rparr>, next_entry = Some 30\<rparr>],
        hash_entry_allocation_stack = Some [4], hash_entry_allocation_site = Some 10,
        free_store = []\<rparr>) \<and>
   malloc_site 0 2
       \<lparr>table = [Some 10, Some 11],
        heap = [10 \<mapsto> \<lparr>data = \<lparr>call_stack = [4], flags = mtNMT\<rparr>, next_entry = Some 12\<rparr>,
              11 \<mapsto> \<lparr>data = \<lparr>call_stack = [5], flags = mtOther 1\<rparr>, next_entry = None\<rparr>,
              12 \<mapsto> \<lparr>data = \<lparr>call_stack = [6], flags = mtOther 1\<rparr>, next_entry = None\<rparr>,
              30 \<mapsto> \<lparr>data = \<lparr>call_stack = [2], flags = mtOther 1\<rparr>, next_entry = None\<rparr>,
              12 \<mapsto> \<lparr>data = \<lparr>call_stack = [6], flags = mtOther 1\<rparr>, next_entry = Some 30\<rparr>],
        hash_entry_allocation_stack = Some [4], hash_entry_allocation_site = Some 10,
        free_store = []\<rparr> = Inr 30"
proof -
  let ?s = "\<lparr>table = [Some 10, Some 11],
      heap = [10 \<mapsto> \<lparr>data = \<lparr>call_stack = [4], flags = mtNMT\<rparr>, next_entry = Some 12\<rparr>,
              11 \<mapsto> \<lparr>data = \<lparr>call_stack = [5], flags = mtOther 1\<rparr>, next_entry = None\<rparr>,
              12 \<mapsto> \<lparr>data = \<lparr>call_stack = [6], flags = mtOther 1\<rparr>, next_entry = None\<rparr>],
      hash_entry_allocation_stack = Some [4], hash_entry_allocation_site = Some 10,
      free_store = [30]\<rparr>"
  let ?s' = "\<lparr>table = [Some 10, Some 11],
        heap = [10 \<mapsto> \<lparr>data = \<lparr>call_stack = [4], flags = mtNMT\<rparr>, next_entry = Some 12\<rparr>,
              11 \<mapsto> \<lparr>data = \<lparr>call_stack = [5], flags = mtOther 1\<rparr>, next_entry = None\<rparr>,
              12 \<mapsto> \<lparr>data = \<lparr>call_stack = [6], flags = mtOther 1\<rparr>, next_entry = None\<rparr>,
              30 \<mapsto> \<lparr>data = \<lparr>call_stack = [2], flags = mtOther 1\<rparr>, next_entry = None\<rparr>,
              12 \<mapsto> \<lparr>data = \<lparr>call_stack = [6], flags = mtOther 1\<rparr>, next_entry = Some 30\<rparr>],
        hash_entry_allocation_stack = Some [4], hash_entry_allocation_site = Some 10,
        free_store = []\<rparr>"
  have f: "fresh_store ?s" by (simp add: fresh_store_def)
  have r: "lookup_or_add sum_list 5 [2] (mtOther 1) ?s = Inr ((Some 30, 0, 2), ?s')"
    by (simp add: lookup_or_add_def hash_to_index_def table_size_def lookup_loop.simps
        try_append_def new_entry_def AllocateHeap_def atomic_insert_def Let_def
        numeral_2_eq_2 [symmetric])
  show ?thesis
    using f r lookup_or_add_round_trip [OF f r] by simp
qed


lemma lookup_loop_overflow:
  "is_chain (heap s) head as \<Longrightarrow> pos \<le> M + 1 \<Longrightarrow> M + 1 \<le> pos + length as \<Longrightarrow>
   list_all (\<lambda>a. case heap s a of None \<Rightarrow> True | Some e \<Rightarrow> \<not> matches key mf e) as \<Longrightarrow>
   lookup_loop M key mf head pos s = Inr ((None, M + 1), s)"
proof (induction as arbitrary: head pos)
  case Nil
  then show ?case by (simp add: lookup_loop_None)
next
  case (Cons a as)
  from Cons.prems(1) obtain e where head: "head = Some a" and e: "heap s a = Some e"
    and rest: "is_chain (heap s) (next_entry e) as"
    by (auto split: option.splits)
  have nm: "\<not> matches key mf e" using Cons.prems(4) e by simp
  have others: "list_all (\<lambda>a. case heap s a of None \<Rightarrow> True | Some e \<Rightarrow> \<not> matches key mf e) as"
    using Cons.prems(4) by simp
  show ?case
  proof (cases "pos \<le> M")
    case False
    then have "pos = M + 1" using Cons.prems(2) by simp
    then show ?thesis unfolding head using False by (simp add: lookup_loop_beyond)
  next
    case True
    have notail: "\<not> (next_entry e = None \<and> pos < M)"
    proof
      assume a: "next_entry e = None \<and> pos < M"
      then have "as = []" using rest by (cases as) auto
      then show False using Cons.prems(3) a by simp
    qed
    have "lookup_loop M key mf (Some a) pos s = lookup_loop M key mf (next_entry e) (pos + 1) s"
      by (rule lookup_loop_next [OF True e nm notail])
    also have "\<dots> = Inr ((None, M + 1), s)"
      using Cons.prems(3) True by (intro Cons.IH [OF rest _ _ others]) simp_all
    finally show ?thesis unfolding head .
  qed
qed

text \<open>
  C2, as the code has it. The walk looks at the positions 0 to \<open>MAX_BUCKET_LENGTH\<close>, so a
  chain is full when it has \<open>MAX_BUCKET_LENGTH + 1\<close> entries. When the chain of the
  key's bucket has at least that many entries and none of them matches the key and the
  category, \<open>lookup_or_add\<close> returns null, with the position \<open>MAX_BUCKET_LENGTH + 1\<close>,
  and leaves the whole state as it is: no entry, chain link or bucket head changes and
  nothing is allocated.
\<close>

theorem lookup_or_add_overflow:
  assumes "mflags \<noteq> mtNone" and "table s \<noteq> []"
    and "is_chain (heap s) (table s ! hash_to_index s (hash key)) as"
    and "MAX_BUCKET_LENGTH + 1 \<le> length as"
    and "list_all (\<lambda>a. case heap s a of None \<Rightarrow> True | Some e \<Rightarrow> \<not> matches key mflags e) as"
  shows "lookup_or_add hash MAX_BUCKET_LENGTH key mflags s =
    Inr ((None, hash_to_index s (hash key), MAX_BUCKET_LENGTH + 1), s)"
proof -
  let ?i = "hash_to_index s (hash key)"
  have inb: "?i < table_size s"
    using assms(2) by (simp add: hash_to_index_def table_size_def)
  have ne: "table s ! ?i \<noteq> None"
    using assms(3,4) by (cases as) auto
  have "lookup_loop MAX_BUCKET_LENGTH key mflags (table s ! ?i) 0 s =
      Inr ((None, MAX_BUCKET_LENGTH + 1), s)"
    using assms(4) by (intro lookup_loop_overflow [OF assms(3) _ _ assms(5)]) simp_all
  then show ?thesis
    using assms(1) inb ne by (auto simp: lookup_or_add_def Let_def)
qed

theorem lookup_or_add_overflow_witness:
  "mtOther 0 \<noteq> mtNone \<and>
   lookup_or_add sum_list 1 [2] (mtOther 0)
     \<lparr>table = [Some 10],
      heap = [10 \<mapsto> \<lparr>data = \<lparr>call_stack = [7], flags = mtNMT\<rparr>, next_entry = Some 11\<rparr>,
              11 \<mapsto> \<lparr>data = \<lparr>call_stack = [2], flags = mtOther 1\<rparr>, next_entry = None\<rparr>],
      hash_entry_allocation_stack = Some [7], hash_entry_allocation_site = Some 10,
      free_store = [20]\<rparr> =
   Inr ((None, 0, 2),
     \<lparr>table = [Some 10],
      heap = [10 \<mapsto> \<lparr>data = \<lparr>call_stack = [7], flags = mtNMT\<rparr>, next_entry = Some 11\<rparr>,
              11 \<mapsto> \<lparr>data = \<lparr>call_stack = [2], flags = mtOther 1\<rparr>, next_entry = None\<rparr>],
      hash_entry_allocation_stack = Some [7], hash_entry_allocation_site = Some 10,
      free_store = [20]\<rparr>)"
proof -
  let ?s = "\<lparr>table = [Some 10],
      heap = [10 \<mapsto> \<lparr>data = \<lparr>call_stack = [7], flags = mtNMT\<rparr>, next_entry = Some 11\<rparr>,
              11 \<mapsto> \<lparr>data = \<lparr>call_stack = [2], flags = mtOther 1\<rparr>, next_entry = None\<rparr>],
      hash_entry_allocation_stack = Some [7], hash_entry_allocation_site = Some 10,
      free_store = [20]\<rparr>"
  have i: "hash_to_index ?s (sum_list [2]) = 0"
    by (simp add: hash_to_index_def table_size_def)
  have n: "mtOther 0 \<noteq> mtNone" by simp
  have t: "table ?s \<noteq> []" by simp
  have c: "is_chain (heap ?s) (table ?s ! hash_to_index ?s (sum_list [2])) [10, 11]"
    unfolding i by simp
  have l: "1 + 1 \<le> length [10 :: nat, 11]" by simp
  have m: "list_all (\<lambda>a. case heap ?s a of None \<Rightarrow> True
       | Some e \<Rightarrow> \<not> matches [2] (mtOther 0) e) [10, 11]"
    by (simp add: matches_def)
  show ?thesis
    using n lookup_or_add_overflow [where hash = sum_list and key = "[2]" and s = ?s
        and mflags = "mtOther 0" and as = "[10, 11]" and MAX_BUCKET_LENGTH = 1, OF n t c l m]
    by (simp add: hash_to_index_def table_size_def)
qed

text \<open>
  C2, as the claim has it, fails. With a chain of \<open>MAX_BUCKET_LENGTH\<close> entries (here one
  entry and \<open>MAX_BUCKET_LENGTH = 1\<close>), none matching, the tail is at the position
  \<open>MAX_BUCKET_LENGTH - 1\<close>, which is below the bound of line 145: a new entry is
  appended and returned, and the old tail's link changes.
\<close>

theorem lookup_or_add_overflow_counterexample:
  "is_chain [10 \<mapsto> \<lparr>data = \<lparr>call_stack = [7], flags = mtNMT\<rparr>, next_entry = None\<rparr>]
     (Some 10) [10] \<and>
   length [10 :: nat] = 1 \<and>
   \<not> matches [2] (mtOther 0) \<lparr>data = \<lparr>call_stack = [7], flags = mtNMT\<rparr>, next_entry = None\<rparr> \<and>
   lookup_or_add sum_list 1 [2] (mtOther 0)
     \<lparr>table = [Some 10],
      heap = [10 \<mapsto> \<lparr>data = \<lparr>call_stack = [7], flags = mtNMT\<rparr>, next_entry = None\<rparr>],
      hash_entry_allocation_stack = Some [7], hash_entry_allocation_site = Some 10,
      free_store = [20]\<rparr> =
   Inr ((Some 20, 0, 1),
     \<lparr>table = [Some 10],
      heap = [10 \<mapsto> \<lparr>data = \<lparr>call_stack = [7], flags = mtNMT\<rparr>, next_entry = None\<rparr>,
              20 \<mapsto> \<lparr>data = \<lparr>call_stack = [2], flags = mtOther 0\<rparr>, next_entry = None\<rparr>,
              10 \<mapsto> \<lparr>data = \<lparr>call_stack = [7], flags = mtNMT\<rparr>, next_entry = Some 20\<rparr>],
      hash_entry_allocation_stack = Some [7], hash_entry_allocation_site = Some 10,
      free_store = []\<rparr>)"
  by (simp add: matches_def lookup_or_add_def hash_to_index_def table_size_def lookup_loop.simps
        try_append_def new_entry_def AllocateHeap_def atomic_insert_def Let_def)

lemma lookup_loop_below_bound:
  "is_chain (heap s) head as \<Longrightarrow> as \<noteq> [] \<Longrightarrow> pos + length as \<le> M \<Longrightarrow>
   list_all (\<lambda>a. case heap s a of None \<Rightarrow> True | Some e \<Rightarrow> \<not> matches key mf e) as \<Longrightarrow>
   free_store s = p # ps \<Longrightarrow> heap s p = None \<Longrightarrow> hash_entry_allocation_stack s = Some st \<Longrightarrow>
   \<exists>e. heap s (last as) = Some e \<and>
     lookup_loop M key mf head pos s =
       Inr ((Some p, pos + length as), s\<lparr>free_store := ps,
          heap := (heap s)(p \<mapsto> \<lparr>data = \<lparr>call_stack = key, flags = mf\<rparr>, next_entry = None\<rparr>,
                           last as \<mapsto> e\<lparr>next_entry := Some p\<rparr>)\<rparr>)"
proof (induction as arbitrary: head pos)
  case Nil
  then show ?case by simp
next
  case (Cons a as)
  from Cons.prems(1) obtain e where head: "head = Some a" and e: "heap s a = Some e"
    and rest: "is_chain (heap s) (next_entry e) as"
    by (auto split: option.splits)
  have nm: "\<not> matches key mf e" using Cons.prems(4) e by simp
  have others: "list_all (\<lambda>a. case heap s a of None \<Rightarrow> True | Some e \<Rightarrow> \<not> matches key mf e) as"
    using Cons.prems(4) by simp
  have le: "pos \<le> M" and lt: "pos < M" using Cons.prems(3) by simp_all
  show ?case
  proof (cases as)
    case Nil
    then have tl: "next_entry e = None" using rest by simp
    have r: "lookup_loop M key mf (Some a) pos s =
       Inr ((Some p, pos + 1), s\<lparr>free_store := ps,
          heap := (heap s)(p \<mapsto> \<lparr>data = \<lparr>call_stack = key, flags = mf\<rparr>, next_entry = None\<rparr>,
                           a \<mapsto> e\<lparr>next_entry := Some p\<rparr>)\<rparr>)"
      by (rule lookup_loop_append [OF le e nm tl lt])
         (rule try_append_tail [OF e tl Cons.prems(6,5,7)])
    have la: "last (a # as) = a" "pos + length (a # as) = pos + 1" using Nil by simp_all
    show ?thesis unfolding la head by (rule exI [of _ e]) (rule conjI [OF e r])
  next
    case (Cons b bs)
    then have nn: "\<not> (next_entry e = None \<and> pos < M)" using rest by auto
    have "\<exists>e'. heap s (last as) = Some e' \<and>
      lookup_loop M key mf (next_entry e) (pos + 1) s =
       Inr ((Some p, pos + 1 + length as), s\<lparr>free_store := ps,
          heap := (heap s)(p \<mapsto> \<lparr>data = \<lparr>call_stack = key, flags = mf\<rparr>, next_entry = None\<rparr>,
                           last as \<mapsto> e'\<lparr>next_entry := Some p\<rparr>)\<rparr>)"
      using Cons Cons.prems(3)
      by (intro Cons.IH [OF rest _ _ others Cons.prems(5,6,7)]) simp_all
    then obtain e' where e': "heap s (last as) = Some e'"
      and r: "lookup_loop M key mf (next_entry e) (pos + 1) s =
       Inr ((Some p, pos + 1 + length as), s\<lparr>free_store := ps,
          heap := (heap s)(p \<mapsto> \<lparr>data = \<lparr>call_stack = key, flags = mf\<rparr>, next_entry = None\<rparr>,
                           last as \<mapsto> e'\<lparr>next_entry := Some p\<rparr>)\<rparr>)"
      by blast
    have la: "last (a # as) = last as" "pos + length (a # as) = pos + 1 + length as"
      using Cons by simp_all
    have r': "lookup_loop M key mf (Some a) pos s =
       Inr ((Some p, pos + 1 + length as), s\<lparr>free_store := ps,
          heap := (heap s)(p \<mapsto> \<lparr>data = \<lparr>call_stack = key, flags = mf\<rparr>, next_entry = None\<rparr>,
                           last as \<mapsto> e'\<lparr>next_entry := Some p\<rparr>)\<rparr>)"
      using lookup_loop_next [OF le e nm nn] r by (rule trans)
    show ?thesis unfolding la head by (rule exI [of _ e']) (rule conjI [OF e' r'])
  qed
qed

text \<open>
  Whatever the value of \<open>MAX_BUCKET_LENGTH\<close>: on a chain of at most \<open>MAX_BUCKET_LENGTH\<close>
  entries, none matching, a call that can allocate returns the new entry, not null.
\<close>

lemma lookup_or_add_below_bound:
  assumes "mflags \<noteq> mtNone" and "table s \<noteq> []"
    and ch: "is_chain (heap s) (table s ! hash_to_index s (hash key)) as"
    and len: "length as \<le> MAX_BUCKET_LENGTH"
    and nm: "list_all (\<lambda>a. case heap s a of None \<Rightarrow> True | Some e \<Rightarrow> \<not> matches key mflags e) as"
    and fs: "free_store s = p # ps" and fr: "heap s p = None"
    and st: "hash_entry_allocation_stack s = Some st"
  shows "\<exists>s'. lookup_or_add hash MAX_BUCKET_LENGTH key mflags s =
    Inr ((Some p, hash_to_index s (hash key), length as), s')"
proof -
  let ?i = "hash_to_index s (hash key)"
  have inb: "?i < table_size s"
    using assms(2) by (simp add: hash_to_index_def table_size_def)
  show ?thesis
  proof (cases as)
    case Nil
    then have "table s ! ?i = None" using ch by simp
    then show ?thesis
      using assms(1) inb fs st Nil
      by (simp add: lookup_or_add_def Let_def first_entry_def new_entry_eq replace_if_null_def)
  next
    case (Cons a bs)
    then have ne: "table s ! ?i \<noteq> None" "as \<noteq> []" using ch by auto
    obtain e where "lookup_loop MAX_BUCKET_LENGTH key mflags (table s ! ?i) 0 s =
       Inr ((Some p, 0 + length as), s\<lparr>free_store := ps,
          heap := (heap s)(p \<mapsto> \<lparr>data = \<lparr>call_stack = key, flags = mflags\<rparr>, next_entry = None\<rparr>,
                           last as \<mapsto> e\<lparr>next_entry := Some p\<rparr>)\<rparr>)"
      using lookup_loop_below_bound [OF ch ne(2) _ nm fs fr st, of 0 MAX_BUCKET_LENGTH] len
      by auto
    then show ?thesis
      using assms(1) inb ne(1) by (auto simp: lookup_or_add_def Let_def)
  qed
qed

subsection \<open>Reset and walk\<close>

lemma is_chain_None [simp]: "is_chain h None as = (as = [])"
  by (cases as) auto

lemma is_chain_Some:
  "is_chain h (Some a) as =
     (\<exists>e bs. as = a # bs \<and> h a = Some e \<and> is_chain h (next_entry e) bs)"
  by (cases as) (auto split: option.splits)

lemma is_chain_unique:
  "is_chain h p as \<Longrightarrow> is_chain h p bs \<Longrightarrow> as = bs"
proof (induction as arbitrary: p bs)
  case Nil
  then show ?case by simp
next
  case (Cons a as)
  then show ?case by (cases bs) (auto split: option.splits)
qed

lemma is_chain_suffix:
  "is_chain h p (xs @ ys) \<Longrightarrow> \<exists>q. is_chain h q ys"
proof (induction xs arbitrary: p)
  case Nil
  then show ?case by auto
next
  case (Cons x xs)
  from Cons.prems obtain e where "h x = Some e" "is_chain h (next_entry e) (xs @ ys)"
    by (auto split: option.splits)
  then show ?case using Cons.IH by blast
qed

lemma is_chain_head_not_in_tail:
  assumes "h a = Some e" "is_chain h (next_entry e) as"
  shows "a \<notin> set as"
proof
  assume "a \<in> set as"
  then obtain xs ys where split: "as = xs @ a # ys" by (auto simp: in_set_conv_decomp)
  then obtain q where "is_chain h q (a # ys)" using assms(2) is_chain_suffix by blast
  then have "is_chain h (next_entry e) ys" using assms(1) by simp
  then have "as = ys" using assms(2) is_chain_unique by blast
  then show False using split by simp
qed

lemma is_chain_distinct: "is_chain h p as \<Longrightarrow> distinct as"
proof (induction as arbitrary: p)
  case Nil
  then show ?case by simp
next
  case (Cons a as)
  then show ?case by (auto split: option.splits dest: is_chain_head_not_in_tail)
qed

lemma is_chain_cong:
  "(\<And>a. a \<in> set as \<Longrightarrow> h' a = h a) \<Longrightarrow> is_chain h' p as = is_chain h p as"
  by (induction as arbitrary: p) (auto split: option.splits)

lemma is_chain_live:
  "p \<in> ps \<Longrightarrow> is_chain h p as \<Longrightarrow> a \<in> set as \<Longrightarrow> h a \<noteq> None"
proof (induction as arbitrary: p ps)
  case Nil
  then show ?case by simp
next
  case (Cons b bs)
  from Cons.prems(2) obtain e where e: "h b = Some e" and rest: "is_chain h (next_entry e) bs"
    by (auto split: option.splits)
  show ?case
  proof (cases "a = b")
    case True
    then show ?thesis using e by simp
  next
    case False
    then have "a \<in> set bs" using Cons.prems(3) by simp
    then show ?thesis using Cons.IH [of "next_entry e" "{next_entry e}"] rest by simp
  qed
qed

lemma deleted_Nil [simp]: "deleted site [] h = h"
  by (simp add: deleted_def)

lemma deleted_Cons:
  "deleted site (a # as) h =
     deleted site as (if Some a \<noteq> site then h(a := None) else h)"
  by (auto simp: deleted_def fun_eq_iff)

lemma deleted_append: "deleted site (as @ bs) h = deleted site bs (deleted site as h)"
  by (auto simp: deleted_def fun_eq_iff)

lemma delete_linked_list_chain:
  "is_chain (heap s) head as \<Longrightarrow>
   delete_linked_list head s =
     Some (Inr (s\<lparr>heap := deleted (hash_entry_allocation_site s) as (heap s)\<rparr>))"
proof (induction as arbitrary: head s)
  case Nil
  then show ?case by (subst delete_linked_list.simps) simp
next
  case (Cons a as)
  from Cons.prems obtain e where head: "head = Some a" and e: "heap s a = Some e"
    and rest: "is_chain (heap s) (next_entry e) as"
    by (auto split: option.splits)
  have nin: "a \<notin> set as" by (rule is_chain_head_not_in_tail [OF e rest])
  show ?case
  proof (cases "Some a \<noteq> hash_entry_allocation_site s")
    case True
    let ?s' = "s\<lparr>heap := (heap s)(a := None)\<rparr>"
    have "is_chain ((heap s)(a := None)) (next_entry e) as = is_chain (heap s) (next_entry e) as"
      by (rule is_chain_cong) (use nin in auto)
    then have rest': "is_chain (heap ?s') (next_entry e) as"
      using rest by simp
    have "delete_linked_list head s = delete_linked_list (next_entry e) ?s'"
      unfolding head using e True
      by (subst delete_linked_list.simps) (simp add: delete_entry_def)
    also have "\<dots> = Some (Inr (?s'\<lparr>heap := deleted (hash_entry_allocation_site ?s') as (heap ?s')\<rparr>))"
      by (rule Cons.IH [OF rest'])
    finally show ?thesis using True by (simp add: deleted_Cons)
  next
    case False
    then have site: "hash_entry_allocation_site s = Some a" by simp
    have "delete_linked_list head s = delete_linked_list (next_entry e) s"
      unfolding head using e site
      by (subst delete_linked_list.simps) simp
    also have "\<dots> = Some (Inr (s\<lparr>heap := deleted (hash_entry_allocation_site s) as (heap s)\<rparr>))"
      by (rule Cons.IH [OF rest])
    finally show ?thesis using False by (simp add: deleted_Cons)
  qed
qed

lemma reset_loop_chains:
  "list_all2 (is_chain (heap s)) (drop i (table s)) css \<Longrightarrow> distinct (concat css) \<Longrightarrow>
   i \<le> length (table s) \<Longrightarrow>
   reset_loop i s =
     Some (Inr (s\<lparr>table := take i (table s) @ replicate (length (table s) - i) None,
                  heap := deleted (hash_entry_allocation_site s) (concat css) (heap s)\<rparr>))"
proof (induction css arbitrary: i s)
  case Nil
  then have "length (table s) = i" by simp
  then show ?case
    by (subst reset_loop.simps) (simp add: table_size_def)
next
  case (Cons cs css)
  from Cons.prems(1) obtain t ts where dr: "drop i (table s) = t # ts"
    and c: "is_chain (heap s) t cs" and cr: "list_all2 (is_chain (heap s)) ts css"
    by (auto simp: list_all2_Cons2)
  have lt: "i < length (table s)" using dr by (cases "i < length (table s)") auto
  have ti: "table s ! i = t" using dr lt by (metis nth_via_drop)
  have ts: "drop (Suc i) (table s) = ts" using dr by (metis drop_Suc tl_drop list.sel(3))
  let ?s1 = "s\<lparr>table := (table s)[i := None]\<rparr>"
  let ?s2 = "?s1\<lparr>heap := deleted (hash_entry_allocation_site ?s1) cs (heap ?s1)\<rparr>"
  have d1: "delete_linked_list (table s ! i) ?s1 = Some (Inr ?s2)"
    unfolding ti by (rule delete_linked_list_chain) (use c in simp)
  have step: "reset_loop i s = reset_loop (Suc i) ?s2"
    using lt by (subst reset_loop.simps) (simp add: table_size_def d1)
  have keep: "\<And>as a. as \<in> set css \<Longrightarrow> a \<in> set as \<Longrightarrow> heap ?s2 a = heap s a"
    using Cons.prems(2) by (auto simp: deleted_def)
  have cr2: "list_all2 (is_chain (heap ?s2)) (drop (Suc i) (table ?s2)) css"
  proof -
    have "list_all2 (is_chain (heap ?s2)) ts css"
      using cr
    proof (rule list.rel_mono_strong)
      fix p as
      assume "as \<in> set css" and ch: "is_chain (heap s) p as"
      then have "is_chain (heap ?s2) p as = is_chain (heap s) p as"
        by (intro is_chain_cong keep)
      then show "is_chain (heap ?s2) p as" using ch by simp
    qed
    then show ?thesis using ts by simp
  qed
  have d2: "distinct (concat css)" using Cons.prems(2) by simp
  have le: "Suc i \<le> length (table ?s2)" using lt by simp
  have tk: "take (Suc i) ((table s)[i := None]) = take i (table s) @ [None]"
    using lt by (simp add: take_Suc_conv_app_nth)
  have rp: "replicate (length (table s) - i) None =
      (None :: addr option) # replicate (length (table s) - Suc i) None"
    using lt by (simp add: Suc_diff_Suc flip: replicate_Suc)
  have "reset_loop (Suc i) ?s2 =
      Some (Inr (?s2\<lparr>table := take (Suc i) (table ?s2) @
                   replicate (length (table ?s2) - Suc i) None,
                 heap := deleted (hash_entry_allocation_site ?s2) (concat css) (heap ?s2)\<rparr>))"
    by (rule Cons.IH [OF cr2 d2 le])
  then show ?case
    unfolding step by (simp add: tk rp deleted_append)
qed

lemma walk_loop_empty:
  "(\<And>i. i < length (table s) \<Longrightarrow> table s ! i = None) \<Longrightarrow>
   walk_loop f index w s = Some (Inr (True, w))"
proof (induction f index w s rule: walk_loop.induct)
  case (1 f index w s)
  show ?case
  proof (cases "index < table_size s")
    case False
    then show ?thesis by (subst walk_loop.simps) simp
  next
    case True
    then have hd: "table s ! index = None" using "1.prems" by (simp add: table_size_def)
    have wc: "walk_chain f None w s = Some (Inr (True, w))"
      by (subst walk_chain.simps) simp
    have "walk_loop f index w s = walk_loop f (index + 1) w s"
      using True by (subst walk_loop.simps) (simp add: hd wc)
    also have "\<dots> = Some (Inr (True, w))"
      using True hd wc "1.prems" by (intro "1.IH") auto
    finally show ?thesis .
  qed
qed

lemma reset_chains:
  assumes "table_chains s css"
  shows "reset s =
     Some (Inr (s\<lparr>table := replicate (length (table s)) None,
                  heap := deleted (hash_entry_allocation_site s) (concat css) (heap s),
                  hash_entry_allocation_stack := None,
                  hash_entry_allocation_site := None\<rparr>))"
proof -
  have "reset_loop 0 s =
     Some (Inr (s\<lparr>table := take 0 (table s) @ replicate (length (table s) - 0) None,
                  heap := deleted (hash_entry_allocation_site s) (concat css) (heap s)\<rparr>))"
    using assms by (intro reset_loop_chains) (simp_all add: table_chains_def)
  then show ?thesis by (simp add: reset_def)
qed

text \<open>
  C4. From a table whose buckets hold chains, no entry on two of them, \<open>reset\<close> returns,
  and in the state it leaves every bucket is empty. A walk of that state returns true
  without calling the walker once, whatever the walker: the counting walker counts no
  site. No entry, the bootstrap entry included, is on the chain of a bucket.
\<close>

theorem reset_empties_table:
  assumes "table_chains s css"
  shows "\<exists>s'. reset s = Some (Inr s') \<and>
     table s' = replicate (table_size s) None \<and>
     walk do_malloc_site w s' = Some (Inr (True, w)) \<and>
     walk counting_walker 0 s' = Some (Inr (True, 0)) \<and>
     (\<forall>i as. i < table_size s' \<and> is_chain (heap s') (table s' ! i) as \<longrightarrow> as = [])"
proof -
  let ?s' = "s\<lparr>table := replicate (length (table s)) None,
                heap := deleted (hash_entry_allocation_site s) (concat css) (heap s),
                hash_entry_allocation_stack := None,
                hash_entry_allocation_site := None\<rparr>"
  have r: "reset s = Some (Inr ?s')" by (rule reset_chains [OF assms])
  have e: "\<And>i. i < length (table ?s') \<Longrightarrow> table ?s' ! i = None" by simp
  have w1: "walk do_malloc_site w ?s' = Some (Inr (True, w))"
    unfolding walk_def by (rule walk_loop_empty [OF e])
  have w2: "walk counting_walker 0 ?s' = Some (Inr (True, 0))"
    unfolding walk_def by (rule walk_loop_empty [OF e])
  have t: "table ?s' = replicate (table_size s) None" by (simp add: table_size_def)
  have n: "\<forall>i as. i < table_size ?s' \<and> is_chain (heap ?s') (table ?s' ! i) as \<longrightarrow> as = []"
    by (auto simp: table_size_def)
  show ?thesis
    by (rule exI [of _ ?s']) (intro conjI r t w1 w2 n)
qed

theorem reset_empties_table_witness:
  "table_chains
     \<lparr>table = [Some 10, None, Some 11],
      heap = [10 \<mapsto> \<lparr>data = \<lparr>call_stack = [7], flags = mtNMT\<rparr>, next_entry = Some 12\<rparr>,
              11 \<mapsto> \<lparr>data = \<lparr>call_stack = [5], flags = mtOther 1\<rparr>, next_entry = None\<rparr>,
              12 \<mapsto> \<lparr>data = \<lparr>call_stack = [6], flags = mtOther 2\<rparr>, next_entry = None\<rparr>],
      hash_entry_allocation_stack = Some [7], hash_entry_allocation_site = Some 10,
      free_store = [30]\<rparr> [[10, 12], [], [11]] \<and>
   (\<exists>s'. reset
     \<lparr>table = [Some 10, None, Some 11],
      heap = [10 \<mapsto> \<lparr>data = \<lparr>call_stack = [7], flags = mtNMT\<rparr>, next_entry = Some 12\<rparr>,
              11 \<mapsto> \<lparr>data = \<lparr>call_stack = [5], flags = mtOther 1\<rparr>, next_entry = None\<rparr>,
              12 \<mapsto> \<lparr>data = \<lparr>call_stack = [6], flags = mtOther 2\<rparr>, next_entry = None\<rparr>],
      hash_entry_allocation_stack = Some [7], hash_entry_allocation_site = Some 10,
      free_store = [30]\<rparr> = Some (Inr s') \<and>
     table s' = [None, None, None] \<and>
     walk counting_walker 0 s' = Some (Inr (True, 0)))"
proof -
  let ?s = "\<lparr>table = [Some 10, None, Some 11],
      heap = [10 \<mapsto> \<lparr>data = \<lparr>call_stack = [7], flags = mtNMT\<rparr>, next_entry = Some 12\<rparr>,
              11 \<mapsto> \<lparr>data = \<lparr>call_stack = [5], flags = mtOther 1\<rparr>, next_entry = None\<rparr>,
              12 \<mapsto> \<lparr>data = \<lparr>call_stack = [6], flags = mtOther 2\<rparr>, next_entry = None\<rparr>],
      hash_entry_allocation_stack = Some [7], hash_entry_allocation_site = Some 10,
      free_store = [30]\<rparr>"
  have c: "table_chains ?s [[10, 12], [], [11]]"
    by (simp add: table_chains_def)
  obtain s' where "reset ?s = Some (Inr s')" "table s' = replicate (table_size ?s) None"
      "walk counting_walker 0 s' = Some (Inr (True, 0))"
    using reset_empties_table [OF c, of counting_walker 0] by blast
  then show ?thesis
    using c by (intro conjI exI [of _ s']) (simp_all add: table_size_def numeral_3_eq_3)
qed

text \<open>
  C9. From a table whose buckets hold chains, no entry on two of them, \<open>reset\<close> returns
  the state in which every bucket is empty, both bootstrap pointers are null, and an
  entry is deleted exactly when it is on a chain and is not the entry
  \<open>hash_entry_allocation_site\<close> points to. So an entry on a chain is deleted if and
  only if it is not the bootstrap entry, and the bootstrap entry is never deleted.
\<close>

theorem reset_deletes_all_but_bootstrap:
  assumes "table_chains s css"
  shows "reset s =
     Some (Inr (s\<lparr>table := replicate (table_size s) None,
                  heap := (\<lambda>a. if a \<in> set (concat css) \<and> Some a \<noteq> hash_entry_allocation_site s
                                then None else heap s a),
                  hash_entry_allocation_stack := None,
                  hash_entry_allocation_site := None\<rparr>)) \<and>
   (\<forall>s' a. reset s = Some (Inr s') \<and> a \<in> set (concat css) \<longrightarrow>
      heap s a \<noteq> None \<and> ((heap s' a = None) = (Some a \<noteq> hash_entry_allocation_site s))) \<and>
   (\<forall>s' a. reset s = Some (Inr s') \<and> Some a = hash_entry_allocation_site s \<longrightarrow>
      heap s' a = heap s a)"
proof -
  have r: "reset s =
     Some (Inr (s\<lparr>table := replicate (table_size s) None,
                  heap := (\<lambda>a. if a \<in> set (concat css) \<and> Some a \<noteq> hash_entry_allocation_site s
                                then None else heap s a),
                  hash_entry_allocation_stack := None,
                  hash_entry_allocation_site := None\<rparr>))"
    using reset_chains [OF assms] by (simp add: deleted_def table_size_def)
  have live: "heap s a \<noteq> None" if "a \<in> set (concat css)" for a
  proof -
    from that obtain as where as: "as \<in> set css" "a \<in> set as" by auto
    then obtain i where i: "i < length css" "as = css ! i"
      by (auto simp: in_set_conv_nth)
    have "list_all2 (is_chain (heap s)) (table s) css"
      using assms by (simp add: table_chains_def)
    then have "is_chain (heap s) (table s ! i) as"
      using i by (simp add: list_all2_nthD2)
    then show ?thesis using as(2) by (rule is_chain_live [of _ UNIV, OF UNIV_I])
  qed
  have a1: "heap s a \<noteq> None \<and> ((heap s' a = None) = (Some a \<noteq> hash_entry_allocation_site s))"
    if "reset s = Some (Inr s')" "a \<in> set (concat css)" for s' a
  proof -
    have "heap s' a = (if Some a \<noteq> hash_entry_allocation_site s then None else heap s a)"
      using that unfolding r by auto
    then show ?thesis using live [OF that(2)] by auto
  qed
  have a2: "heap s' a = heap s a"
    if "reset s = Some (Inr s')" "Some a = hash_entry_allocation_site s" for s' a
    using that unfolding r by auto
  show ?thesis
    using r a1 a2 by blast
qed

theorem reset_deletes_all_but_bootstrap_witness:
  "table_chains
     \<lparr>table = [Some 10, None, Some 11],
      heap = [10 \<mapsto> \<lparr>data = \<lparr>call_stack = [7], flags = mtNMT\<rparr>, next_entry = Some 12\<rparr>,
              11 \<mapsto> \<lparr>data = \<lparr>call_stack = [5], flags = mtOther 1\<rparr>, next_entry = None\<rparr>,
              12 \<mapsto> \<lparr>data = \<lparr>call_stack = [6], flags = mtOther 2\<rparr>, next_entry = None\<rparr>],
      hash_entry_allocation_stack = Some [7], hash_entry_allocation_site = Some 10,
      free_store = [30]\<rparr> [[10, 12], [], [11]] \<and>
   reset
     \<lparr>table = [Some 10, None, Some 11],
      heap = [10 \<mapsto> \<lparr>data = \<lparr>call_stack = [7], flags = mtNMT\<rparr>, next_entry = Some 12\<rparr>,
              11 \<mapsto> \<lparr>data = \<lparr>call_stack = [5], flags = mtOther 1\<rparr>, next_entry = None\<rparr>,
              12 \<mapsto> \<lparr>data = \<lparr>call_stack = [6], flags = mtOther 2\<rparr>, next_entry = None\<rparr>],
      hash_entry_allocation_stack = Some [7], hash_entry_allocation_site = Some 10,
      free_store = [30]\<rparr> =
   Some (Inr
     \<lparr>table = [None, None, None],
      heap = [10 \<mapsto> \<lparr>data = \<lparr>call_stack = [7], flags = mtNMT\<rparr>, next_entry = Some 12\<rparr>],
      hash_entry_allocation_stack = None, hash_entry_allocation_site = None,
      free_store = [30]\<rparr>)"
proof -
  let ?h = "[10 \<mapsto> \<lparr>data = \<lparr>call_stack = [7], flags = mtNMT\<rparr>, next_entry = Some 12\<rparr>,
              11 \<mapsto> \<lparr>data = \<lparr>call_stack = [5], flags = mtOther 1\<rparr>, next_entry = None\<rparr>,
              12 \<mapsto> \<lparr>data = \<lparr>call_stack = [6], flags = mtOther 2\<rparr>, next_entry = None\<rparr>]"
  let ?s = "\<lparr>table = [Some 10, None, Some 11], heap = ?h,
      hash_entry_allocation_stack = Some [7], hash_entry_allocation_site = Some 10,
      free_store = [30]\<rparr>"
  have c: "table_chains ?s [[10, 12], [], [11]]"
    by (simp add: table_chains_def)
  have h: "(\<lambda>a. if a \<in> set (concat [[10, 12], [], [11]]) \<and> Some a \<noteq> hash_entry_allocation_site ?s
                then None else heap ?s a) =
           [10 \<mapsto> \<lparr>data = \<lparr>call_stack = [7], flags = mtNMT\<rparr>, next_entry = Some 12\<rparr>]"
    by (rule ext) simp
  show ?thesis
    using c reset_deletes_all_but_bootstrap [OF c, THEN conjunct1]
    unfolding h by (simp add: table_size_def numeral_3_eq_3)
qed


section \<open>Properties of the access lock\<close>

lemma run_append:
  "run MAGIC (es @ fs) s =
     (case run MAGIC es s of Inl err \<Rightarrow> Inl err | Inr s' \<Rightarrow> run MAGIC fs s')"
proof (induction es arbitrary: s)
  case Nil
  then show ?case by simp
next
  case (Cons e es)
  then show ?case by (cases e) (simp_all split: sum.splits)
qed

lemma run_waiting:
  "pc s = WaitReaders \<Longrightarrow> lock s \<noteq> MAGIC \<Longrightarrow> run MAGIC (replicate k WriterStep) s = Inr s"
  by (induction k) (simp_all add: exclusiveLock_step_def)

text \<open>
  Without a reader between the writer's two reads the lock does what it is meant to do:
  the writer adds \<open>_MAGIC_\<close> to the counter, waits as long as the reader holds its shared
  lock, and holds the exclusive lock once the reader has released it.
\<close>

lemma exclusiveLock_waits_for_reader:
  "run MAGIC ([WriterStep, WriterStep, WriterStep, WriterStep] @ replicate k WriterStep)
     \<lparr>lock = 1, val = 0, target = 0, pc = Enter, shared_holders = 1\<rparr> =
   Inr \<lparr>lock = MAGIC + 1, val = 1, target = MAGIC + 1, pc = WaitReaders, shared_holders = 1\<rparr> \<and>
   run MAGIC ([WriterStep, WriterStep, WriterStep, WriterStep] @ replicate k WriterStep @
       [ReaderUnlocks, WriterStep])
     \<lparr>lock = 1, val = 0, target = 0, pc = Enter, shared_holders = 1\<rparr> =
   Inr \<lparr>lock = MAGIC, val = 1, target = MAGIC + 1, pc = ExclusiveHeld, shared_holders = 0\<rparr>"
proof -
  let ?s = "\<lparr>lock = 1, val = 0, target = 0, pc = Enter, shared_holders = 1\<rparr>"
  let ?w = "\<lparr>lock = MAGIC + 1, val = 1, target = MAGIC + 1, pc = WaitReaders, shared_holders = 1\<rparr>"
  have a: "run MAGIC [WriterStep, WriterStep, WriterStep, WriterStep] ?s = Inr ?w"
    by (simp add: exclusiveLock_step_def word_sle_eq)
  have b: "run MAGIC (replicate k WriterStep) ?w = Inr ?w"
    by (rule run_waiting) simp_all
  have c: "run MAGIC [ReaderUnlocks, WriterStep] ?w =
      Inr \<lparr>lock = MAGIC, val = 1, target = MAGIC + 1, pc = ExclusiveHeld, shared_holders = 0\<rparr>"
    by (simp add: exclusiveLock_step_def sharedUnlock_def)
  show ?thesis
    by (simp only: run_append a b c sum.case simp_thms)
qed

text \<open>
  C8. The exclusive lock is not exclusive. One reader holds a shared lock. The writer
  enters \<open>exclusiveLock\<close> and reads \<open>val = 1\<close> (line 230); the reader releases its
  lock; the writer reads the counter again for \<open>target\<close> (line 231), which is now
  \<open>_MAGIC_ + 0\<close>; a second reader takes a shared lock, and the counter is 1 again; the
  writer's \<open>cmpxchg\<close> (line 232) finds the counter equal to \<open>val\<close> and stores
  \<open>_MAGIC_\<close>; the waiting loop (line 235) sees \<open>_MAGIC_\<close> and ends. The writer holds
  the exclusive lock while the second reader holds its shared lock, whatever the value of
  \<open>_MAGIC_\<close>.
\<close>

theorem exclusiveLock_with_shared_holder:
  "run MAGIC
     [WriterStep, WriterStep, ReaderUnlocks, WriterStep, ReaderLocks, WriterStep, WriterStep]
     \<lparr>lock = 1, val = 0, target = 0, pc = Enter, shared_holders = 1\<rparr> =
   Inr \<lparr>lock = MAGIC, val = 1, target = MAGIC, pc = ExclusiveHeld, shared_holders = 1\<rparr>"
  by (simp add: exclusiveLock_step_def sharedLock_def sharedUnlock_def word_sle_eq)

end
